theory Spec2Isabelle
  imports Main "HOL-Library.Multiset" "HOL-Library.List_Lexorder" "HOL-Library.Char_ord"
begin

section \<open>Artifact garbage collection: the data model\<close>

text \<open>
  The embedding follows \<^verbatim>\<open>tfx/orchestration/experimental/core/garbage_collection.py\<close>.
  Protocol-buffer messages are records, a \<^verbatim>\<open>oneof\<close> is a datatype, a protobuf map is
  an association list looked up with \<open>map_of\<close>, Python's unbounded integers are \<open>int\<close>,
  and every \<^verbatim>\<open>raise\<close> of the source is an \<open>Inl\<close> result.
\<close>

subsection \<open>Property values\<close>

text \<open>
  A metadata value is a \<^verbatim>\<open>oneof\<close>; the Python value read from it is an integer, a
  string or a boolean, or \<^verbatim>\<open>None\<close> when no field of the \<^verbatim>\<open>oneof\<close> is set.
  Floating-point and packed-message values are left out of the model.
\<close>

datatype mlmd_value = Int_value int | String_value string | Bool_value bool | Value_not_set

datatype property = IntProp int | StrProp string | BoolProp bool

datatype py_type = Type_int | Type_str | Type_bool

fun type_of :: "property \<Rightarrow> py_type" where
  "type_of (IntProp _) = Type_int"
| "type_of (StrProp _) = Type_str"
| "type_of (BoolProp _) = Type_bool"

text \<open>
  Modelled from the spec: \<^verbatim>\<open>data_types_utils.get_metadata_value\<close> is not part of the
  sources at hand; it returns the primitive value stored in a metadata value, and
  \<^verbatim>\<open>None\<close> for a missing value.
\<close>

fun get_metadata_value :: "mlmd_value \<Rightarrow> property option" where
  "get_metadata_value (Int_value i) = Some (IntProp i)"
| "get_metadata_value (String_value s) = Some (StrProp s)"
| "get_metadata_value (Bool_value b) = Some (BoolProp b)"
| "get_metadata_value Value_not_set = None"

text \<open>
  Python's \<^verbatim>\<open>sorted\<close> compares values of one type only (a list of mixed types is
  rejected by the type check before it is sorted), so the order between values of
  different types below is never observed; it only makes the order total.
\<close>

instantiation property :: linorder
begin

fun less_eq_property :: "property \<Rightarrow> property \<Rightarrow> bool" where
  "less_eq_property (IntProp a) (IntProp b) = (a \<le> b)"
| "less_eq_property (IntProp a) (StrProp b) = True"
| "less_eq_property (IntProp a) (BoolProp b) = True"
| "less_eq_property (StrProp a) (IntProp b) = False"
| "less_eq_property (StrProp a) (StrProp b) = (a \<le> b)"
| "less_eq_property (StrProp a) (BoolProp b) = True"
| "less_eq_property (BoolProp a) (IntProp b) = False"
| "less_eq_property (BoolProp a) (StrProp b) = False"
| "less_eq_property (BoolProp a) (BoolProp b) = (a \<le> b)"

definition less_property :: "property \<Rightarrow> property \<Rightarrow> bool" where
  "less_property x y = (x \<le> y \<and> \<not> y \<le> x)"

instance
proof
  fix x y z :: property
  show "(x < y) = (x \<le> y \<and> \<not> y \<le> x)"
    by (simp add: less_property_def)
  show "x \<le> x"
    by (cases x) simp_all
  show "x \<le> y \<Longrightarrow> y \<le> z \<Longrightarrow> x \<le> z"
    by (cases x; cases y; cases z) auto
  show "x \<le> y \<Longrightarrow> y \<le> x \<Longrightarrow> x = y"
    by (cases x; cases y) auto
  show "x \<le> y \<or> y \<le> x"
    by (cases x; cases y) auto
qed

end

subsection \<open>Artifacts, events, executions\<close>

text \<open>
  Modelled from the spec: the metadata store's messages are declared outside the sources
  at hand. An artifact has an id, a storage uri, a creation timestamp, typed and custom
  properties and a state in \<open>{LIVE, DELETED}\<close>; an event links an artifact id to an
  execution id with a direction; an execution has an id and a lifecycle state that is
  active or terminal.
\<close>

datatype artifact_state = LIVE | DELETED

record artifact =
  artifact_id :: int
  uri :: string
  create_time_since_epoch :: int
  properties :: "(string \<times> mlmd_value) list"
  custom_properties :: "(string \<times> mlmd_value) list"
  state :: artifact_state

datatype event_direction = INPUT | OUTPUT

record event =
  ev_artifact_id :: int
  ev_execution_id :: int
  ev_direction :: event_direction

datatype lifecycle_state = ACTIVE | TERMINAL

record execution =
  execution_id :: int
  last_known_state :: lifecycle_state

text \<open>
  Modelled from the spec: \<^verbatim>\<open>event_lib.is_valid_input_event\<close> and
  \<^verbatim>\<open>execution_lib.is_execution_active\<close> are not part of the sources at hand; an input
  event is an event of input direction, an active execution one whose lifecycle state
  is active.
\<close>

definition is_valid_input_event :: "event \<Rightarrow> bool" where
  "is_valid_input_event e = (ev_direction e = INPUT)"

definition is_execution_active :: "execution \<Rightarrow> bool" where
  "is_execution_active x = (last_known_state x = ACTIVE)"

subsection \<open>Policies\<close>

datatype keep_order =
  KEEP_ORDER_UNSPECIFIED | KEEP_ORDER_LARGEST | KEEP_ORDER_SMALLEST | KEEP_ORDER_UNRECOGNIZED int

record grouping =
  property_name :: string
  keep_num :: int
  keep_order :: keep_order

datatype policy_oneof =
  Keep_most_recently_published int
| Keep_property_value_groups "grouping list"
| Policy_not_set

record 'g garbage_collection_policy =
  policy :: policy_oneof
  keep_if_used_in_pipeline_groups :: 'g

subsection \<open>Errors\<close>

text \<open>
  One constructor for each \<^verbatim>\<open>raise\<close> of the source, and one each for an exception
  raised by the metadata store, by the file system layer and by the pipeline-group
  extension.
\<close>

datatype error =
  ValueError_heterogeneous_type
| ValueError_unknown_keep_order
| ValueError_node_uids_do_not_match
| RuntimeError_execution_not_found int
| StoreError
| FileioError
| ExtensionError

section \<open>Policy evaluation\<close>

subsection \<open>KeepMostRecentlyPublished\<close>

definition artifacts_not_most_recently_published :: "artifact list \<Rightarrow> int \<Rightarrow> artifact list" where
  "artifacts_not_most_recently_published artifacts num_artifacts =
     (if num_artifacts \<le> 0 then artifacts
      else if int (length artifacts) \<le> num_artifacts then []
      else
        (let publish_times = sort (map create_time_since_epoch artifacts);
             cutoff_publish_time = publish_times ! (length publish_times - nat num_artifacts)
         in filter (\<lambda>a. create_time_since_epoch a < cutoff_publish_time) artifacts))"

subsection \<open>Property lookup\<close>

definition get_property_value :: "artifact \<Rightarrow> string \<Rightarrow> property option" where
  "get_property_value a name =
     (case map_of (properties a) name of
        Some v \<Rightarrow> get_metadata_value v
      | None \<Rightarrow>
          (case map_of (custom_properties a) name of
             Some v \<Rightarrow> get_metadata_value v
           | None \<Rightarrow> None))"

subsection \<open>KeepPropertyValueGroups\<close>

text \<open>
  \<^verbatim>\<open>artifacts_by_property_value\<close> is a \<^verbatim>\<open>defaultdict(list)\<close>: an association list in
  insertion order, keyed by the property value (\<open>None\<close> is the null bucket). A lookup of
  a key that is absent gives the empty list.
\<close>

type_synonym artifacts_by_property_value = "(property option \<times> artifact list) list"

fun append_to_bucket ::
  "property option \<Rightarrow> artifact \<Rightarrow> artifacts_by_property_value \<Rightarrow> artifacts_by_property_value" where
  "append_to_bucket v a [] = [(v, [a])]"
| "append_to_bucket v a ((k, xs) # d) =
     (if k = v then (k, xs @ [a]) # d else (k, xs) # append_to_bucket v a d)"

definition bucket :: "artifacts_by_property_value \<Rightarrow> property option \<Rightarrow> artifact list" where
  "bucket d v = (case map_of d v of Some xs \<Rightarrow> xs | None \<Rightarrow> [])"

text \<open>
  The loop over the artifacts of one group. \<open>ty\<close> is \<^verbatim>\<open>all_property_value_type\<close>, with
  \<open>None\<close> for \<^verbatim>\<open>type(None)\<close>; it is shared by all the groups of one grouping.
\<close>

fun group_by_property_value ::
  "string \<Rightarrow> artifact list \<Rightarrow> py_type option \<Rightarrow> artifacts_by_property_value \<Rightarrow>
   error + (py_type option \<times> artifacts_by_property_value)" where
  "group_by_property_value name [] ty d = Inr (ty, d)"
| "group_by_property_value name (a # as) ty d =
     (case get_property_value a name of
        None \<Rightarrow> group_by_property_value name as ty (append_to_bucket None a d)
      | Some v \<Rightarrow>
          if ty \<noteq> None \<and> ty \<noteq> Some (type_of v) then Inl ValueError_heterogeneous_type
          else group_by_property_value name as (Some (type_of v)) (append_to_bucket (Some v) a d))"

definition non_null_keys :: "artifacts_by_property_value \<Rightarrow> property list" where
  "non_null_keys d = concat (map (\<lambda>(k, xs). case k of None \<Rightarrow> [] | Some x \<Rightarrow> [x]) d)"

text \<open>
  \<^verbatim>\<open>sorted_property_values[-keep_num:]\<close> and \<^verbatim>\<open>sorted_property_values[:keep_num]\<close> for
  a positive \<^verbatim>\<open>keep_num\<close>: the last, respectively the first, \<^verbatim>\<open>keep_num\<close> values, and the
  whole list when it is shorter.
\<close>

definition property_values_to_keep :: "grouping \<Rightarrow> property list \<Rightarrow> error + property list" where
  "property_values_to_keep g sorted_property_values =
     (if keep_order g = KEEP_ORDER_UNSPECIFIED \<or> keep_order g = KEEP_ORDER_LARGEST
      then Inr (drop (length sorted_property_values - nat (keep_num g)) sorted_property_values)
      else if keep_order g = KEEP_ORDER_SMALLEST
      then Inr (take (nat (keep_num g)) sorted_property_values)
      else Inl ValueError_unknown_keep_order)"

text \<open>The groups that one group contributes to \<^verbatim>\<open>next_artifact_groups\<close>.\<close>

definition groups_to_keep :: "grouping \<Rightarrow> artifacts_by_property_value \<Rightarrow> error + artifact list list" where
  "groups_to_keep g d =
     (if keep_num g \<le> 0 then Inr (map snd d)
      else
        (case property_values_to_keep g (sort (non_null_keys d)) of
           Inl e \<Rightarrow> Inl e
         | Inr keep \<Rightarrow>
             Inr (map (\<lambda>v. bucket d (Some v)) keep @
                  (if None \<in> set (map fst d) \<and> int (length keep) < keep_num g
                   then [bucket d None] else []))))"

text \<open>The loop over the groups of one grouping.\<close>

fun next_artifact_groups ::
  "grouping \<Rightarrow> artifact list list \<Rightarrow> py_type option \<Rightarrow> artifact list list \<Rightarrow>
   error + artifact list list" where
  "next_artifact_groups g [] ty acc = Inr acc"
| "next_artifact_groups g (artifact_group # groups) ty acc =
     (case group_by_property_value (property_name g) artifact_group ty [] of
        Inl e \<Rightarrow> Inl e
      | Inr (ty', d) \<Rightarrow>
          (case groups_to_keep g d of
             Inl e \<Rightarrow> Inl e
           | Inr ks \<Rightarrow> next_artifact_groups g groups ty' (acc @ ks)))"

text \<open>The loop over the groupings.\<close>

fun artifact_groups :: "grouping list \<Rightarrow> artifact list list \<Rightarrow> error + artifact list list" where
  "artifact_groups [] groups = Inr groups"
| "artifact_groups (g # gs) groups =
     (case next_artifact_groups g groups None [] of
        Inl e \<Rightarrow> Inl e
      | Inr groups' \<Rightarrow> artifact_groups gs groups')"

definition artifacts_not_kept_by_property_value_groups ::
  "artifact list \<Rightarrow> grouping list \<Rightarrow> error + artifact list" where
  "artifacts_not_kept_by_property_value_groups artifacts groupings =
     (case artifact_groups groupings [artifacts] of
        Inl e \<Rightarrow> Inl e
      | Inr groups \<Rightarrow>
          (let artifacts_ids_to_keep = map artifact_id (concat groups)
           in Inr (filter (\<lambda>a. artifact_id a \<notin> set artifacts_ids_to_keep) artifacts)))"

section \<open>The world the collector runs in\<close>

text \<open>
  The metadata store, the file system layer and the pipeline-group extension are outside
  the sources at hand. The store's content is data that the queries read; the file
  system and the extension are oracles, so every theorem below holds for any behaviour
  of theirs. Each call may fail.
\<close>

datatype store_call =
  Get_live_output_artifacts string string
| Get_events_by_artifact_ids "int list"
| Get_executions_by_id "int list"
| Put_artifacts "artifact list"

datatype fileio_call = Isdir string | Rmtree string | Remove string | Exists string

fun call_uri :: "fileio_call \<Rightarrow> string" where
  "call_uri (Isdir u) = u"
| "call_uri (Rmtree u) = u"
| "call_uri (Remove u) = u"
| "call_uri (Exists u) = u"

text \<open>
  The records written with \<^verbatim>\<open>logging.error\<close> and \<^verbatim>\<open>logging.exception\<close>
  (\<^verbatim>\<open>logging.info\<close> is not modelled).
\<close>

datatype log_record =
  Error_unknown_policy
| Error_unknown_keep_order
| Exception_uri_not_found string
| Exception_failed_to_delete string
| Exception_garbage_collection_failed error

record 'fs world =
  filesystem :: 'fs
  fileio_calls :: "fileio_call list"
  store_writes :: "artifact list list"
  log_records :: "log_record list"

text \<open>
  Modelled from the spec: the store answers a query for the live output artifacts of a
  node by output key, for the events of a set of artifact ids and for the executions of
  a set of ids (an id it does not hold is left out of the answer), and takes a batch
  write of artifact records. The extension returns the candidates that are still
  eligible. The file system layer tests a location for existence and for being a
  directory, and removes it (singly or recursively); a removal that fails may still
  have changed the file system.
\<close>

record ('g, 'fs) env =
  store_live_output_artifacts :: "string \<Rightarrow> string \<Rightarrow> (string \<times> artifact list list) list"
  store_events :: "event list"
  store_executions :: "int \<Rightarrow> lifecycle_state option"
  store_fails :: "store_call \<Rightarrow> bool"
  artifacts_not_in_use_in_pipeline_groups :: "'g \<Rightarrow> artifact list \<Rightarrow> error + artifact list"
  fileio_isdir :: "string \<Rightarrow> 'fs \<Rightarrow> error + bool"
  fileio_rmtree :: "string \<Rightarrow> 'fs \<Rightarrow> (error + unit) \<times> 'fs"
  fileio_remove :: "string \<Rightarrow> 'fs \<Rightarrow> (error + unit) \<times> 'fs"
  fileio_exists :: "string \<Rightarrow> 'fs \<Rightarrow> error + bool"

record node_uid =
  pipeline_id :: string
  node_id :: string

record 'g output_spec =
  garbage_collection_policy :: "'g garbage_collection_policy option"

record 'g node =
  node_info_id :: string
  outputs :: "(string \<times> 'g output_spec) list"

definition get_live_output_artifacts_of_node_by_output_key ::
  "('g, 'fs) env \<Rightarrow> string \<Rightarrow> string \<Rightarrow> error + (string \<times> artifact list list) list" where
  "get_live_output_artifacts_of_node_by_output_key env pid nid =
     (if store_fails env (Get_live_output_artifacts pid nid) then Inl StoreError
      else Inr (store_live_output_artifacts env pid nid))"

definition get_events_by_artifact_ids :: "('g, 'fs) env \<Rightarrow> int list \<Rightarrow> error + event list" where
  "get_events_by_artifact_ids env ids =
     (if store_fails env (Get_events_by_artifact_ids ids) then Inl StoreError
      else Inr (filter (\<lambda>e. ev_artifact_id e \<in> set ids) (store_events env)))"

definition get_executions_by_id :: "('g, 'fs) env \<Rightarrow> int list \<Rightarrow> error + execution list" where
  "get_executions_by_id env ids =
     (if store_fails env (Get_executions_by_id ids) then Inl StoreError
      else Inr (concat (map (\<lambda>i. case store_executions env i of
                                    None \<Rightarrow> []
                                  | Some s \<Rightarrow> [\<lparr>execution_id = i, last_known_state = s\<rparr>]) ids)))"

definition put_artifacts ::
  "('g, 'fs) env \<Rightarrow> artifact list \<Rightarrow> 'fs world \<Rightarrow> (error + unit) \<times> 'fs world" where
  "put_artifacts env artifacts w =
     (if store_fails env (Put_artifacts artifacts) then (Inl StoreError, w)
      else (Inr (), w\<lparr>store_writes := store_writes w @ [artifacts]\<rparr>))"

section \<open>Candidates for one output key\<close>

text \<open>
  \<^verbatim>\<open>execution_id_to_execution\<close>: a dictionary comprehension, where a later execution
  with the same id replaces an earlier one.
\<close>

definition execution_id_to_execution :: "execution list \<Rightarrow> int \<Rightarrow> execution option" where
  "execution_id_to_execution executions =
     fold (\<lambda>x m. m(execution_id x \<mapsto> x)) executions Map.empty"

fun in_use_artifact_ids ::
  "(int \<Rightarrow> execution option) \<Rightarrow> event list \<Rightarrow> int set \<Rightarrow> error + int set" where
  "in_use_artifact_ids by_id [] acc = Inr acc"
| "in_use_artifact_ids by_id (e # es) acc =
     (case by_id (ev_execution_id e) of
        None \<Rightarrow> Inl (RuntimeError_execution_not_found (ev_execution_id e))
      | Some execution \<Rightarrow>
          in_use_artifact_ids by_id es
            (if is_execution_active execution then insert (ev_artifact_id e) acc else acc))"

definition artifacts_not_in_use ::
  "('g, 'fs) env \<Rightarrow> artifact list \<Rightarrow> event list \<Rightarrow> error + artifact list" where
  "artifacts_not_in_use env artifacts events =
     (let artifact_ids = set (map artifact_id artifacts);
          input_events =
            filter (\<lambda>e. ev_artifact_id e \<in> artifact_ids \<and> is_valid_input_event e) events;
          execution_ids = map ev_execution_id input_events
      in if execution_ids = [] then Inr artifacts
         else
           (case get_executions_by_id env execution_ids of
              Inl err \<Rightarrow> Inl err
            | Inr executions \<Rightarrow>
                (case in_use_artifact_ids (execution_id_to_execution executions) input_events {} of
                   Inl err \<Rightarrow> Inl err
                 | Inr in_use \<Rightarrow> Inr (filter (\<lambda>a. artifact_id a \<notin> in_use) artifacts))))"

text \<open>
  The evaluators of the two policies compute a value; the policy dispatch writes the
  log. The source logs an unknown \<^verbatim>\<open>keep_order\<close> right before it raises, which is
  where \<open>ValueError_unknown_keep_order\<close> enters the world here.
\<close>

definition log_error :: "log_record \<Rightarrow> 'fs world \<Rightarrow> 'fs world" where
  "log_error r w = w\<lparr>log_records := log_records w @ [r]\<rparr>"

definition artifacts_to_garbage_collect_for_policy ::
  "artifact list \<Rightarrow> 'g garbage_collection_policy \<Rightarrow> 'fs world \<Rightarrow>
   (error + artifact list) \<times> 'fs world" where
  "artifacts_to_garbage_collect_for_policy artifacts p w =
     (case policy p of
        Keep_most_recently_published num_artifacts \<Rightarrow>
          (Inr (artifacts_not_most_recently_published artifacts num_artifacts), w)
      | Keep_property_value_groups groupings \<Rightarrow>
          (case artifacts_not_kept_by_property_value_groups artifacts groupings of
             Inl err \<Rightarrow>
               (Inl err,
                if err = ValueError_unknown_keep_order then log_error Error_unknown_keep_order w
                else w)
           | Inr result \<Rightarrow> (Inr result, w))
      | Policy_not_set \<Rightarrow> (Inr [], log_error Error_unknown_policy w))"

definition artifacts_to_garbage_collect ::
  "('g, 'fs) env \<Rightarrow> artifact list \<Rightarrow> event list \<Rightarrow> 'g garbage_collection_policy \<Rightarrow>
   'fs world \<Rightarrow> (error + artifact list) \<times> 'fs world" where
  "artifacts_to_garbage_collect env artifacts events p w =
     (case artifacts_to_garbage_collect_for_policy artifacts p w of
        (Inl err, w1) \<Rightarrow> (Inl err, w1)
      | (Inr result1, w1) \<Rightarrow>
          (case artifacts_not_in_use_in_pipeline_groups env
                  (keep_if_used_in_pipeline_groups p) result1 of
             Inl err \<Rightarrow> (Inl err, w1)
           | Inr result2 \<Rightarrow> (artifacts_not_in_use env result2 events, w1)))"

section \<open>The purge\<close>

text \<open>
  \<^verbatim>\<open>_get_property_value(artifact, 'is_external') == 1\<close>: Python's \<^verbatim>\<open>True\<close> equals
  \<^verbatim>\<open>1\<close>, a string or \<^verbatim>\<open>None\<close> does not.
\<close>

definition is_artifact_external :: "artifact \<Rightarrow> bool" where
  "is_artifact_external a =
     (case get_property_value a ''is_external'' of
        Some (IntProp i) \<Rightarrow> i = 1
      | Some (BoolProp b) \<Rightarrow> b
      | Some (StrProp s) \<Rightarrow> False
      | None \<Rightarrow> False)"

definition called :: "fileio_call \<Rightarrow> 'fs world \<Rightarrow> 'fs world" where
  "called c w = w\<lparr>fileio_calls := fileio_calls w @ [c]\<rparr>"

text \<open>The \<^verbatim>\<open>except Exception\<close> handler of \<^verbatim>\<open>_delete_artifact_uri\<close>.\<close>

definition delete_artifact_uri_handler ::
  "('g, 'fs) env \<Rightarrow> artifact \<Rightarrow> 'fs world \<Rightarrow> (error + bool) \<times> 'fs world" where
  "delete_artifact_uri_handler env a w =
     (let w1 = called (Exists (uri a)) w
      in case fileio_exists env (uri a) (filesystem w1) of
           Inl err \<Rightarrow> (Inl err, w1)
         | Inr False \<Rightarrow> (Inr True, log_error (Exception_uri_not_found (uri a)) w1)
         | Inr True \<Rightarrow> (Inr False, log_error (Exception_failed_to_delete (uri a)) w1))"

definition delete_artifact_uri ::
  "('g, 'fs) env \<Rightarrow> artifact \<Rightarrow> 'fs world \<Rightarrow> (error + bool) \<times> 'fs world" where
  "delete_artifact_uri env a w =
     (let w1 = called (Isdir (uri a)) w
      in case fileio_isdir env (uri a) (filesystem w1) of
           Inl err \<Rightarrow> delete_artifact_uri_handler env a w1
         | Inr True \<Rightarrow>
             (let w2 = called (Rmtree (uri a)) w1
              in case fileio_rmtree env (uri a) (filesystem w2) of
                   (Inl err, fs) \<Rightarrow> delete_artifact_uri_handler env a (w2\<lparr>filesystem := fs\<rparr>)
                 | (Inr u, fs) \<Rightarrow> (Inr True, w2\<lparr>filesystem := fs\<rparr>))
         | Inr False \<Rightarrow>
             (let w2 = called (Remove (uri a)) w1
              in case fileio_remove env (uri a) (filesystem w2) of
                   (Inl err, fs) \<Rightarrow> delete_artifact_uri_handler env a (w2\<lparr>filesystem := fs\<rparr>)
                 | (Inr u, fs) \<Rightarrow> (Inr True, w2\<lparr>filesystem := fs\<rparr>)))"

text \<open>
  The loop of \<^verbatim>\<open>garbage_collect_artifacts\<close>. It returns the artifact records as the loop
  leaves them; each element of the list is a message of its own.
\<close>

fun mark_artifacts ::
  "('g, 'fs) env \<Rightarrow> artifact list \<Rightarrow> 'fs world \<Rightarrow> (error + artifact list) \<times> 'fs world" where
  "mark_artifacts env [] w = (Inr [], w)"
| "mark_artifacts env (a # as) w =
     (if is_artifact_external a then
        (case mark_artifacts env as w of
           (Inl err, w') \<Rightarrow> (Inl err, w')
         | (Inr as', w') \<Rightarrow> (Inr (a\<lparr>state := DELETED\<rparr> # as'), w'))
      else
        (case delete_artifact_uri env a w of
           (Inl err, w1) \<Rightarrow> (Inl err, w1)
         | (Inr deleted, w1) \<Rightarrow>
             (case mark_artifacts env as w1 of
                (Inl err, w') \<Rightarrow> (Inl err, w')
              | (Inr as', w') \<Rightarrow>
                  (Inr ((if deleted then a\<lparr>state := DELETED\<rparr> else a) # as'), w'))))"

definition garbage_collect_artifacts ::
  "('g, 'fs) env \<Rightarrow> artifact list \<Rightarrow> 'fs world \<Rightarrow> (error + unit) \<times> 'fs world" where
  "garbage_collect_artifacts env artifacts w =
     (if artifacts = [] then (Inr (), w)
      else
        (case mark_artifacts env artifacts w of
           (Inl err, w1) \<Rightarrow> (Inl err, w1)
         | (Inr artifacts', w1) \<Rightarrow> put_artifacts env artifacts' w1))"

section \<open>The node level\<close>

definition get_live_output_artifacts_for_node ::
  "('g, 'fs) env \<Rightarrow> node_uid \<Rightarrow> error + (string \<times> artifact list) list" where
  "get_live_output_artifacts_for_node env uid =
     (case get_live_output_artifacts_of_node_by_output_key env (pipeline_id uid) (node_id uid) of
        Inl err \<Rightarrow> Inl err
      | Inr by_key \<Rightarrow> Inr (map (\<lambda>(output_key, nested). (output_key, concat nested)) by_key))"

definition get_garbage_collection_policies_for_node ::
  "'g node \<Rightarrow> (string \<times> 'g garbage_collection_policy) list" where
  "get_garbage_collection_policies_for_node n =
     concat (map (\<lambda>(output_key, spec).
                    case garbage_collection_policy spec of
                      None \<Rightarrow> []
                    | Some p \<Rightarrow> [(output_key, p)]) (outputs n))"

text \<open>The loop over \<^verbatim>\<open>policies_by_output_key.items()\<close>.\<close>

fun collect_for_output_keys ::
  "('g, 'fs) env \<Rightarrow> (string \<times> artifact list) list \<Rightarrow> event list \<Rightarrow>
   (string \<times> 'g garbage_collection_policy) list \<Rightarrow> artifact list \<Rightarrow> 'fs world \<Rightarrow>
   (error + artifact list) \<times> 'fs world" where
  "collect_for_output_keys env by_key events [] result w = (Inr result, w)"
| "collect_for_output_keys env by_key events ((output_key, p) # ps) result w =
     (case map_of by_key output_key of
        None \<Rightarrow> collect_for_output_keys env by_key events ps result w
      | Some artifacts \<Rightarrow>
          (case artifacts_to_garbage_collect env artifacts events p w of
             (Inl err, w1) \<Rightarrow> (Inl err, w1)
           | (Inr for_key, w1) \<Rightarrow>
               collect_for_output_keys env by_key events ps (result @ for_key) w1))"

definition get_artifacts_to_garbage_collect_for_node ::
  "('g, 'fs) env \<Rightarrow> node_uid \<Rightarrow> 'g node \<Rightarrow> 'fs world \<Rightarrow> (error + artifact list) \<times> 'fs world" where
  "get_artifacts_to_garbage_collect_for_node env uid n w =
     (let policies_by_output_key = get_garbage_collection_policies_for_node n
      in if policies_by_output_key = [] then (Inr [], w)
         else
           (case get_live_output_artifacts_for_node env uid of
              Inl err \<Rightarrow> (Inl err, w)
            | Inr artifacts_by_output_key \<Rightarrow>
                if artifacts_by_output_key = [] then (Inr [], w)
                else
                  (let dedupped_artifact_ids =
                         remdups (map artifact_id (concat (map snd artifacts_by_output_key)))
                   in case get_events_by_artifact_ids env dedupped_artifact_ids of
                        Inl err \<Rightarrow> (Inl err, w)
                      | Inr events \<Rightarrow>
                          collect_for_output_keys env artifacts_by_output_key events
                            policies_by_output_key [] w)))"

text \<open>
  The \<^verbatim>\<open>try\<close> of the entry point: every error of the body becomes a log record and
  the call returns normally. The check of the node ids stands before the \<^verbatim>\<open>try\<close>.
\<close>

definition run_garbage_collection_for_node ::
  "('g, 'fs) env \<Rightarrow> node_uid \<Rightarrow> 'g node \<Rightarrow> 'fs world \<Rightarrow> (error + unit) \<times> 'fs world" where
  "run_garbage_collection_for_node env uid n w =
     (if node_info_id n \<noteq> node_id uid then (Inl ValueError_node_uids_do_not_match, w)
      else
        (case get_artifacts_to_garbage_collect_for_node env uid n w of
           (Inl err, w1) \<Rightarrow> (Inr (), log_error (Exception_garbage_collection_failed err) w1)
         | (Inr artifacts, w1) \<Rightarrow>
             (case garbage_collect_artifacts env artifacts w1 of
                (Inl err, w2) \<Rightarrow> (Inr (), log_error (Exception_garbage_collection_failed err) w2)
              | (Inr u, w2) \<Rightarrow> (Inr (), w2))))"

section \<open>The design, in its own words\<close>

text \<open>
  The removal that the purge attempts on a storage location, in the words of the
  design: recursive if the location is a directory, a single removal otherwise. The
  result tells whether the attempt succeeded, with the file system it leaves.
\<close>

definition attempt_removal :: "('g, 'fs) env \<Rightarrow> string \<Rightarrow> 'fs \<Rightarrow> bool \<times> 'fs" where
  "attempt_removal env u fs =
     (case fileio_isdir env u fs of
        Inl err \<Rightarrow> (False, fs)
      | Inr is_dir \<Rightarrow>
          (case (if is_dir then fileio_rmtree env u fs else fileio_remove env u fs) of
             (Inl err, fs') \<Rightarrow> (False, fs')
           | (Inr ok, fs') \<Rightarrow> (True, fs')))"

text \<open>
  An artifact is consumed by an active execution, by a list of events, when an input
  event of the list points at it from an execution that the store holds as active.
\<close>

definition consumed_by_active_execution :: "('g, 'fs) env \<Rightarrow> event list \<Rightarrow> artifact \<Rightarrow> bool" where
  "consumed_by_active_execution env events a =
     (\<exists>e \<in> set events. ev_artifact_id e = artifact_id a \<and> is_valid_input_event e \<and>
                       store_executions env (ev_execution_id e) = Some ACTIVE)"

text \<open>
  Modelled from the spec: the contract of the pipeline-group extension, which the sources
  at hand do not hold. It may only shrink the candidate set.
\<close>

definition extension_shrinks :: "('g, 'fs) env \<Rightarrow> bool" where
  "extension_shrinks env =
     (\<forall>g xs ys. artifacts_not_in_use_in_pipeline_groups env g xs = Inr ys \<longrightarrow> set ys \<subseteq> set xs)"

subsection \<open>What KeepPropertyValueGroups keeps, as sets\<close>

text \<open>
  The design in its own words: the groups are partitioned by the property value; with
  \<open>keep_num \<le> 0\<close> every bucket survives, otherwise the buckets of the \<open>keep_num\<close> largest
  (or smallest) distinct non-null values survive, and the null bucket survives when
  fewer than \<open>keep_num\<close> distinct non-null values exist. A value is among the \<open>k\<close> largest
  of a set when fewer than \<open>k\<close> values of the set are above it.
\<close>

definition property_values :: "string \<Rightarrow> artifact list \<Rightarrow> property set" where
  "property_values name G = {v. \<exists>a \<in> set G. get_property_value a name = Some v}"

definition selected_values :: "grouping \<Rightarrow> property set \<Rightarrow> property set" where
  "selected_values g V =
     (if keep_order g = KEEP_ORDER_SMALLEST
      then {v \<in> V. card {u \<in> V. u < v} < nat (keep_num g)}
      else {v \<in> V. card {u \<in> V. v < u} < nat (keep_num g)})"

definition kept_keys :: "grouping \<Rightarrow> artifact list \<Rightarrow> property option set" where
  "kept_keys g G =
     (if keep_num g \<le> 0 then (\<lambda>a. get_property_value a (property_name g)) ` set G
      else Some ` selected_values g (property_values (property_name g) G) \<union>
           (if None \<in> (\<lambda>a. get_property_value a (property_name g)) ` set G \<and>
               card (property_values (property_name g) G) < nat (keep_num g)
            then {None} else {}))"

definition kept_groups :: "grouping \<Rightarrow> artifact list \<Rightarrow> artifact list set" where
  "kept_groups g G =
     (\<lambda>key. filter (\<lambda>a. get_property_value a (property_name g) = key) G) ` kept_keys g G"

definition unknown_keep_order :: "grouping \<Rightarrow> bool" where
  "unknown_keep_order g =
     (0 < keep_num g \<and> keep_order g \<noteq> KEEP_ORDER_UNSPECIFIED \<and>
      keep_order g \<noteq> KEEP_ORDER_LARGEST \<and> keep_order g \<noteq> KEEP_ORDER_SMALLEST)"

text \<open>The non-null values of a property over a list of artifacts share one type.\<close>

definition homogeneous :: "string \<Rightarrow> artifact list \<Rightarrow> bool" where
  "homogeneous name G =
     (\<forall>a \<in> set G. \<forall>b \<in> set G. \<forall>v u.
        get_property_value a name = Some v \<and> get_property_value b name = Some u \<longrightarrow>
        type_of v = type_of u)"

text \<open>
  The worklist as a set of groups: one grouping replaces every group by the groups it
  keeps. A grouping can be evaluated on the groups of its level when its \<open>keep_order\<close>
  is known or there is no group, and the non-null values of its property over all the
  groups share one type.
\<close>

definition step_groups :: "grouping \<Rightarrow> artifact list set \<Rightarrow> artifact list set" where
  "step_groups g GS = (\<Union>G \<in> GS. kept_groups g G)"

fun final_groups :: "grouping list \<Rightarrow> artifact list set \<Rightarrow> artifact list set" where
  "final_groups [] GS = GS"
| "final_groups (g # gs) GS = final_groups gs (step_groups g GS)"

definition level_ok :: "grouping \<Rightarrow> artifact list set \<Rightarrow> bool" where
  "level_ok g GS =
     ((unknown_keep_order g \<longrightarrow> GS = {}) \<and>
      (\<forall>G \<in> GS. \<forall>H \<in> GS. \<forall>a \<in> set G. \<forall>b \<in> set H. \<forall>v u.
         get_property_value a (property_name g) = Some v \<and>
         get_property_value b (property_name g) = Some u \<longrightarrow> type_of v = type_of u))"

fun groupings_ok :: "grouping list \<Rightarrow> artifact list set \<Rightarrow> bool" where
  "groupings_ok [] GS = True"
| "groupings_ok (g # gs) GS = (level_ok g GS \<and> groupings_ok gs (step_groups g GS))"

section \<open>Concrete inputs\<close>

definition mk_artifact :: "int \<Rightarrow> string \<Rightarrow> int \<Rightarrow> (string \<times> mlmd_value) list \<Rightarrow> artifact" where
  "mk_artifact i u t cp =
     \<lparr>artifact_id = i, uri = u, create_time_since_epoch = t, properties = [],
      custom_properties = cp, state = LIVE\<rparr>"

text \<open>
  A file system that is the list of the locations that exist: nothing is a directory,
  a removal succeeds on an existing location other than \<open>''locked''\<close>.
\<close>

definition example_env :: "(unit, string list) env" where
  "example_env =
     \<lparr>store_live_output_artifacts = (\<lambda>pid nid. []),
      store_events = [],
      store_executions = (\<lambda>i. None),
      store_fails = (\<lambda>c. False),
      artifacts_not_in_use_in_pipeline_groups = (\<lambda>g xs. Inr xs),
      fileio_isdir = (\<lambda>u fs. Inr False),
      fileio_rmtree = (\<lambda>u fs. (Inl FileioError, fs)),
      fileio_remove =
        (\<lambda>u fs. if u \<in> set fs \<and> u \<noteq> ''locked'' then (Inr (), removeAll u fs)
                 else (Inl FileioError, fs)),
      fileio_exists = (\<lambda>u fs. Inr (u \<in> set fs))\<rparr>"

definition example_world :: "string list world" where
  "example_world =
     \<lparr>filesystem = [''u1'', ''u2'', ''locked''], fileio_calls = [], store_writes = [],
      log_records = []\<rparr>"

definition external_artifact :: artifact where
  "external_artifact = mk_artifact 5 ''ext'' 40 [(''is_external'', Int_value 1)]"

definition locked_artifact :: artifact where
  "locked_artifact = mk_artifact 6 ''locked'' 50 []"

definition gone_artifact :: artifact where
  "gone_artifact = mk_artifact 7 ''gone'' 5 []"

definition stored_artifact :: artifact where
  "stored_artifact = mk_artifact 1 ''u1'' 10 []"

text \<open>
  A store with one node: output key \<open>''out''\<close> holds three artifacts, the first an input
  of the active execution 7, the second an input of the terminal execution 8, the third
  an output of execution 7; output key \<open>''bad''\<close> holds one artifact.
\<close>

definition in_use_artifact :: artifact where
  "in_use_artifact = mk_artifact 11 ''u0'' 10 []"

definition done_artifact :: artifact where
  "done_artifact = mk_artifact 12 ''u1'' 20 []"

definition fresh_artifact :: artifact where
  "fresh_artifact = mk_artifact 13 ''u2'' 30 []"

definition span_artifact :: artifact where
  "span_artifact = mk_artifact 14 ''u3'' 40 [(''span'', Int_value 1)]"

definition store_env :: "(unit, string list) env" where
  "store_env =
     example_env
       \<lparr>store_live_output_artifacts :=
          (\<lambda>pid nid. if pid = ''p'' \<and> nid = ''n''
                      then [(''out'', [[in_use_artifact, done_artifact], [fresh_artifact]]),
                            (''bad'', [[span_artifact]])]
                      else []),
        store_events :=
          [\<lparr>ev_artifact_id = 11, ev_execution_id = 7, ev_direction = INPUT\<rparr>,
           \<lparr>ev_artifact_id = 12, ev_execution_id = 8, ev_direction = INPUT\<rparr>,
           \<lparr>ev_artifact_id = 13, ev_execution_id = 7, ev_direction = OUTPUT\<rparr>],
        store_executions :=
          (\<lambda>i. if i = 7 then Some ACTIVE else if i = 8 then Some TERMINAL else None)\<rparr>"

definition example_uid :: node_uid where
  "example_uid = \<lparr>pipeline_id = ''p'', node_id = ''n''\<rparr>"

definition keep_none :: "unit garbage_collection_policy" where
  "keep_none = \<lparr>policy = Keep_most_recently_published 0, keep_if_used_in_pipeline_groups = ()\<rparr>"

definition unknown_order_policy :: "unit garbage_collection_policy" where
  "unknown_order_policy =
     \<lparr>policy = Keep_property_value_groups
                 [\<lparr>property_name = ''span'', keep_num = 1, keep_order = KEEP_ORDER_UNRECOGNIZED 7\<rparr>],
      keep_if_used_in_pipeline_groups = ()\<rparr>"

definition unset_policy :: "unit garbage_collection_policy" where
  "unset_policy = \<lparr>policy = Policy_not_set, keep_if_used_in_pipeline_groups = ()\<rparr>"

definition example_node :: "unit node" where
  "example_node =
     \<lparr>node_info_id = ''n'',
      outputs = [(''out'', \<lparr>garbage_collection_policy = Some keep_none\<rparr>)]\<rparr>"

definition unknown_order_node :: "unit node" where
  "unknown_order_node =
     \<lparr>node_info_id = ''n'',
      outputs = [(''bad'', \<lparr>garbage_collection_policy = Some unknown_order_policy\<rparr>),
                 (''out'', \<lparr>garbage_collection_policy = Some keep_none\<rparr>)]\<rparr>"

definition unset_policy_node :: "unit node" where
  "unset_policy_node =
     \<lparr>node_info_id = ''n'',
      outputs = [(''bad'', \<lparr>garbage_collection_policy = Some unset_policy\<rparr>),
                 (''out'', \<lparr>garbage_collection_policy = Some keep_none\<rparr>)]\<rparr>"


text \<open>Artifacts with a \<open>span\<close> property, and one without it.\<close>

definition span1a :: artifact where
  "span1a = mk_artifact 21 ''s1'' 1 [(''span'', Int_value 1)]"

definition span1b :: artifact where
  "span1b = mk_artifact 22 ''s2'' 2 [(''span'', Int_value 1)]"

definition span2 :: artifact where
  "span2 = mk_artifact 23 ''s3'' 3 [(''span'', Int_value 2)]"

definition span3 :: artifact where
  "span3 = mk_artifact 24 ''s4'' 4 [(''span'', Int_value 3)]"

definition no_span :: artifact where
  "no_span = mk_artifact 25 ''s5'' 5 []"

definition text_span :: artifact where
  "text_span = mk_artifact 26 ''s6'' 6 [(''span'', String_value ''x'')]"

definition keep_largest_span :: "int \<Rightarrow> grouping" where
  "keep_largest_span k = \<lparr>property_name = ''span'', keep_num = k, keep_order = KEEP_ORDER_LARGEST\<rparr>"

section \<open>Properties of KeepMostRecentlyPublished\<close>

lemma sorted_count_ge:
  fixes xs :: "int list"
  assumes "sorted xs" "j < length xs"
  shows "length xs - j \<le> length (filter (\<lambda>x. xs ! j \<le> x) xs)"
proof -
  have all: "\<forall>x \<in> set (drop j xs). xs ! j \<le> x"
    using assms by (auto simp: in_set_conv_nth sorted_iff_nth_mono)
  have "length (filter (\<lambda>x. xs ! j \<le> x) xs) =
        length (filter (\<lambda>x. xs ! j \<le> x) (take j xs)) + length (filter (\<lambda>x. xs ! j \<le> x) (drop j xs))"
    by (metis append_take_drop_id filter_append length_append)
  also have "filter (\<lambda>x. xs ! j \<le> x) (drop j xs) = drop j xs"
    using all by (simp add: filter_id_conv)
  finally show ?thesis by simp
qed

lemma sorted_count_gt:
  fixes xs :: "int list"
  assumes "sorted xs" "j < length xs"
  shows "length (filter (\<lambda>x. xs ! j < x) xs) \<le> length xs - Suc j"
proof -
  have all: "\<forall>x \<in> set (take (Suc j) xs). \<not> xs ! j < x"
    using assms by (auto simp: in_set_conv_nth sorted_iff_nth_mono not_less)
  have "length (filter (\<lambda>x. xs ! j < x) xs) =
        length (filter (\<lambda>x. xs ! j < x) (take (Suc j) xs)) + length (filter (\<lambda>x. xs ! j < x) (drop (Suc j) xs))"
    by (metis append_take_drop_id filter_append length_append)
  also have "filter (\<lambda>x. xs ! j < x) (take (Suc j) xs) = []"
    using all by (simp add: filter_empty_conv)
  finally have "length (filter (\<lambda>x. xs ! j < x) xs) = length (filter (\<lambda>x. xs ! j < x) (drop (Suc j) xs))"
    by simp
  also have "\<dots> \<le> length (drop (Suc j) xs)"
    by (rule length_filter_le)
  finally show ?thesis by simp
qed

lemma length_filter_sort:
  fixes ts :: "int list"
  shows "length (filter P (sort ts)) = length (filter P ts)"
proof -
  have "mset (filter P (sort ts)) = mset (filter P ts)"
    by (simp add: mset_filter)
  then show ?thesis by (metis size_mset)
qed

lemma length_filter_times:
  "length (filter (\<lambda>a. P (create_time_since_epoch a)) A) =
   length (filter P (map create_time_since_epoch A))"
  by (induction A) auto

text \<open>
  C3, as the code has it: a policy with \<open>num_artifacts \<le> 0\<close> keeps nothing, so the
  delete-set is the whole list; with \<open>0 < num_artifacts\<close> and at most \<open>num_artifacts\<close>
  artifacts the delete-set is empty.
\<close>

theorem keep_most_recently_published_small:
  "(n \<le> 0 \<longrightarrow> artifacts_not_most_recently_published A n = A) \<and>
   (0 < n \<and> int (length A) \<le> n \<longrightarrow> artifacts_not_most_recently_published A n = [])"
  by (simp add: artifacts_not_most_recently_published_def)

theorem keep_most_recently_published_small_witness:
  "artifacts_not_most_recently_published [mk_artifact 1 ''a'' 10 []] 0 = [mk_artifact 1 ''a'' 10 []] \<and>
   artifacts_not_most_recently_published [mk_artifact 1 ''a'' 10 []] 1 = []"
  using keep_most_recently_published_small [of 0 "[mk_artifact 1 ''a'' 10 []]"]
        keep_most_recently_published_small [of 1 "[mk_artifact 1 ''a'' 10 []]"]
  by simp

text \<open>
  C3 as stated fails: with \<open>num_artifacts = 0\<close> the one artifact of the list is in the
  delete-set.
\<close>

theorem keep_most_recently_published_zero_counterexample:
  "\<not> (\<forall>A n. n \<le> 0 \<or> int (length A) \<le> n \<longrightarrow> artifacts_not_most_recently_published A n = [])"
proof
  assume "\<forall>A n. n \<le> 0 \<or> int (length A) \<le> n \<longrightarrow> artifacts_not_most_recently_published A n = []"
  then have "artifacts_not_most_recently_published [mk_artifact 1 ''a'' 10 []] 0 = []"
    by simp
  then show False
    by (simp add: artifacts_not_most_recently_published_def)
qed

text \<open>
  C4: with \<open>0 < n < |A|\<close> the cutoff \<open>c\<close> is the timestamp at index \<open>|A| - n\<close> (counted
  from 0) of the ascending sorted timestamps, that is the \<open>n\<close>-th largest: at least \<open>n\<close>
  artifacts have a timestamp \<open>\<ge> c\<close> and fewer than \<open>n\<close> have one \<open>> c\<close>. The delete-set
  is exactly the artifacts with a timestamp strictly below \<open>c\<close>, so an artifact tied at
  the cutoff is kept.
\<close>

theorem keep_most_recently_published_cutoff:
  fixes A :: "artifact list" and n :: int
  defines "c \<equiv> sort (map create_time_since_epoch A) ! (length A - nat n)"
  assumes "0 < n" "n < int (length A)"
  shows "artifacts_not_most_recently_published A n = filter (\<lambda>a. create_time_since_epoch a < c) A
       \<and> c \<in> create_time_since_epoch ` set A
       \<and> nat n \<le> length (filter (\<lambda>a. c \<le> create_time_since_epoch a) A)
       \<and> length (filter (\<lambda>a. c < create_time_since_epoch a) A) < nat n"
proof -
  let ?ts = "map create_time_since_epoch A"
  let ?xs = "sort ?ts"
  let ?j = "length A - nat n"
  have j: "?j < length ?xs" using assms by simp
  have c: "c = ?xs ! ?j" by (simp add: c_def)
  have 1: "artifacts_not_most_recently_published A n = filter (\<lambda>a. create_time_since_epoch a < c) A"
    using assms(2,3) by (simp add: artifacts_not_most_recently_published_def c_def)
  have "c \<in> set ?xs" unfolding c using j by (rule nth_mem)
  then have 2: "c \<in> create_time_since_epoch ` set A" by simp
  have "length ?xs - ?j \<le> length (filter (\<lambda>x. c \<le> x) ?xs)"
    unfolding c by (rule sorted_count_ge) (use j in simp_all)
  then have 3: "nat n \<le> length (filter (\<lambda>a. c \<le> create_time_since_epoch a) A)"
    using assms(2,3) by (simp add: length_filter_sort length_filter_times)
  have "length (filter (\<lambda>x. c < x) ?xs) \<le> length ?xs - Suc ?j"
    unfolding c by (rule sorted_count_gt) (use j in simp_all)
  then have 4: "length (filter (\<lambda>a. c < create_time_since_epoch a) A) < nat n"
    using assms(2,3) by (simp add: length_filter_sort length_filter_times)
  from 1 2 3 4 show ?thesis by blast
qed

text \<open>
  The example of C4: timestamps \<open>[10, 20, 20, 30]\<close> and \<open>n = 2\<close>. The cutoff is 20, the
  delete-set is the artifact of timestamp 10, and three artifacts survive.
\<close>

theorem keep_most_recently_published_cutoff_witness:
  "artifacts_not_most_recently_published
     [mk_artifact 1 ''a'' 10 [], mk_artifact 2 ''b'' 20 [], mk_artifact 3 ''c'' 20 [],
      mk_artifact 4 ''d'' 30 []] 2 = [mk_artifact 1 ''a'' 10 []]
   \<and> length (filter (\<lambda>a. a \<notin> set (artifacts_not_most_recently_published
        [mk_artifact 1 ''a'' 10 [], mk_artifact 2 ''b'' 20 [], mk_artifact 3 ''c'' 20 [],
         mk_artifact 4 ''d'' 30 []] 2))
        [mk_artifact 1 ''a'' 10 [], mk_artifact 2 ''b'' 20 [], mk_artifact 3 ''c'' 20 [],
         mk_artifact 4 ''d'' 30 []]) = 3"
  using keep_most_recently_published_cutoff
    [of 2 "[mk_artifact 1 ''a'' 10 [], mk_artifact 2 ''b'' 20 [], mk_artifact 3 ''c'' 20 [],
            mk_artifact 4 ''d'' 30 []]"]
  by (simp add: mk_artifact_def)

section \<open>Properties of the purge\<close>

lemma delete_artifact_uri_handler_frame:
  assumes "delete_artifact_uri_handler env a w = (r, w')"
  shows "store_writes w' = store_writes w"
    and "filesystem w' = filesystem w"
    and "\<exists>cs. fileio_calls w' = fileio_calls w @ cs \<and> (\<forall>c \<in> set cs. call_uri c = uri a)"
  using assms
  by (auto simp: delete_artifact_uri_handler_def called_def log_error_def Let_def
           split: sum.splits bool.splits)

lemma delete_artifact_uri_frame:
  assumes "delete_artifact_uri env a w = (r, w')"
  shows "store_writes w' = store_writes w"
    and "\<exists>cs. fileio_calls w' = fileio_calls w @ cs \<and> (\<forall>c \<in> set cs. call_uri c = uri a)"
proof -
  have "store_writes w' = store_writes w \<and>
        (\<exists>cs. fileio_calls w' = fileio_calls w @ cs \<and> (\<forall>c \<in> set cs. call_uri c = uri a))"
  proof (cases "fileio_isdir env (uri a) (filesystem w)")
    case (Inl err)
    then have h: "delete_artifact_uri_handler env a (called (Isdir (uri a)) w) = (r, w')"
      using assms by (simp add: delete_artifact_uri_def called_def Let_def)
    from delete_artifact_uri_handler_frame(1,3)[OF h] show ?thesis
      by (auto simp: called_def)
  next
    case (Inr d)
    show ?thesis
    proof (cases d)
      case True
      obtain res fs where rm: "fileio_rmtree env (uri a) (filesystem w) = (res, fs)"
        by (cases "fileio_rmtree env (uri a) (filesystem w)")
      show ?thesis
      proof (cases res)
        case (Inl err)
        then have h: "delete_artifact_uri_handler env a
            ((called (Rmtree (uri a)) (called (Isdir (uri a)) w))\<lparr>filesystem := fs\<rparr>) = (r, w')"
          using assms Inr True rm by (simp add: delete_artifact_uri_def called_def Let_def)
        from delete_artifact_uri_handler_frame(1,3)[OF h] show ?thesis
          by (auto simp: called_def)
      next
        case (Inr u)
        then show ?thesis
          using assms \<open>fileio_isdir env (uri a) (filesystem w) = Inr d\<close> True rm
          by (auto simp: delete_artifact_uri_def called_def Let_def)
      qed
    next
      case False
      obtain res fs where rm: "fileio_remove env (uri a) (filesystem w) = (res, fs)"
        by (cases "fileio_remove env (uri a) (filesystem w)")
      show ?thesis
      proof (cases res)
        case (Inl err)
        then have h: "delete_artifact_uri_handler env a
            ((called (Remove (uri a)) (called (Isdir (uri a)) w))\<lparr>filesystem := fs\<rparr>) = (r, w')"
          using assms Inr False rm by (simp add: delete_artifact_uri_def called_def Let_def)
        from delete_artifact_uri_handler_frame(1,3)[OF h] show ?thesis
          by (auto simp: called_def)
      next
        case (Inr u)
        then show ?thesis
          using assms \<open>fileio_isdir env (uri a) (filesystem w) = Inr d\<close> False rm
          by (auto simp: delete_artifact_uri_def called_def Let_def)
      qed
    qed
  qed
  then show "store_writes w' = store_writes w"
    and "\<exists>cs. fileio_calls w' = fileio_calls w @ cs \<and> (\<forall>c \<in> set cs. call_uri c = uri a)"
    by blast+
qed

text \<open>What \<open>delete_artifact_uri\<close> returns, by the outcome of the removal it attempts.\<close>

lemma delete_artifact_uri_outcome:
  assumes "attempt_removal env (uri a) (filesystem w) = (ok, fs1)"
  shows "fst (delete_artifact_uri env a w) =
           (if ok then Inr True
            else case fileio_exists env (uri a) fs1 of
                   Inl err \<Rightarrow> Inl err
                 | Inr present \<Rightarrow> Inr (\<not> present))"
  using assms
  by (auto simp: attempt_removal_def delete_artifact_uri_def delete_artifact_uri_handler_def
                 called_def log_error_def Let_def
           split: sum.splits bool.splits if_splits prod.splits)

lemma mark_artifacts_frame:
  assumes "mark_artifacts env as w = (r, w')"
  shows "store_writes w' = store_writes w \<and>
         (\<exists>cs. fileio_calls w' = fileio_calls w @ cs \<and>
               (\<forall>c \<in> set cs. \<exists>a \<in> set as. \<not> is_artifact_external a \<and> call_uri c = uri a))"
  using assms
proof (induction as arbitrary: w r w')
  case Nil
  then show ?case by simp
next
  case (Cons a as)
  show ?case
  proof (cases "is_artifact_external a")
    case True
    obtain r1 w1 where m: "mark_artifacts env as w = (r1, w1)"
      by (cases "mark_artifacts env as w")
    have "w' = w1" using Cons.prems True m by (auto split: sum.splits)
    with Cons.IH[OF m] show ?thesis by auto
  next
    case False
    obtain rd wd where d: "delete_artifact_uri env a w = (rd, wd)"
      by (cases "delete_artifact_uri env a w")
    from delete_artifact_uri_frame[OF d]
    obtain cs1 where sw: "store_writes wd = store_writes w"
      and cs1: "fileio_calls wd = fileio_calls w @ cs1" "\<forall>c \<in> set cs1. call_uri c = uri a"
      by blast
    show ?thesis
    proof (cases rd)
      case (Inl err)
      then have "w' = wd" using Cons.prems False d by simp
      then show ?thesis using sw cs1 False by auto
    next
      case (Inr b)
      obtain r1 w1 where m: "mark_artifacts env as wd = (r1, w1)"
        by (cases "mark_artifacts env as wd")
      have "w' = w1" using Cons.prems False d Inr m by (auto split: sum.splits)
      from Cons.IH[OF m] obtain cs2 where
        "store_writes w1 = store_writes wd" "fileio_calls w1 = fileio_calls wd @ cs2"
        "\<forall>c \<in> set cs2. \<exists>a \<in> set as. \<not> is_artifact_external a \<and> call_uri c = uri a"
        by blast
      then have "fileio_calls w1 = fileio_calls w @ (cs1 @ cs2) \<and>
         (\<forall>c \<in> set (cs1 @ cs2). \<exists>x \<in> set (a # as). \<not> is_artifact_external x \<and> call_uri c = uri x)"
        using cs1 False by auto
      moreover have "store_writes w' = store_writes w"
        using \<open>w' = w1\<close> \<open>store_writes w1 = store_writes wd\<close> sw by simp
      ultimately show ?thesis unfolding \<open>w' = w1\<close> by blast
    qed
  qed
qed

lemma mark_artifacts_append:
  "mark_artifacts env (xs @ ys) w =
     (case mark_artifacts env xs w of
        (Inl err, w1) \<Rightarrow> (Inl err, w1)
      | (Inr xs', w1) \<Rightarrow>
          (case mark_artifacts env ys w1 of
             (Inl err, w2) \<Rightarrow> (Inl err, w2)
           | (Inr ys', w2) \<Rightarrow> (Inr (xs' @ ys'), w2)))"
  by (induction xs arbitrary: w) (auto split: sum.splits prod.splits)

lemma mark_artifacts_length:
  "mark_artifacts env as w = (Inr as', w') \<Longrightarrow> length as' = length as"
  by (induction as arbitrary: w as' w') (auto split: sum.splits prod.splits if_splits)

lemma mark_artifacts_only_state:
  "mark_artifacts env as w = (Inr as', w') \<Longrightarrow>
   list_all2 (\<lambda>a a'. a' = a \<or> a' = a\<lparr>state := DELETED\<rparr>) as as'"
  by (induction as arbitrary: w as' w') (auto split: sum.splits prod.splits if_splits)

lemma mark_artifacts_nth:
  assumes m: "mark_artifacts env as w = (Inr as', w')"
    and i: "i < length as"
    and p: "mark_artifacts env (take i as) w = (r, wi)"
  shows "as' ! i =
           (if is_artifact_external (as ! i) then (as ! i)\<lparr>state := DELETED\<rparr>
            else if fst (delete_artifact_uri env (as ! i) wi) = Inr True
                 then (as ! i)\<lparr>state := DELETED\<rparr> else as ! i)"
proof -
  have split: "as = take i as @ (as ! i # drop (Suc i) as)"
    using i by (simp add: id_take_nth_drop)
  have "mark_artifacts env (take i as @ (as ! i # drop (Suc i) as)) w = (Inr as', w')"
    using m split by simp
  then obtain xs' where r: "r = Inr xs'"
    using p by (auto simp: mark_artifacts_append split: sum.splits prod.splits)
  have lx: "length xs' = i"
    using mark_artifacts_length[of env "take i as" w xs' wi] p r i by simp
  obtain ys' w2 where rest: "mark_artifacts env (as ! i # drop (Suc i) as) wi = (Inr ys', w2)"
    and out: "as' = xs' @ ys'"
    using \<open>mark_artifacts env (take i as @ (as ! i # drop (Suc i) as)) w = (Inr as', w')\<close> p r
    by (auto simp: mark_artifacts_append split: sum.splits prod.splits)
  have "as' ! i = hd ys'"
    using out lx rest by (cases ys') (auto simp: nth_append split: sum.splits prod.splits if_splits)
  moreover have "hd ys' =
           (if is_artifact_external (as ! i) then (as ! i)\<lparr>state := DELETED\<rparr>
            else if fst (delete_artifact_uri env (as ! i) wi) = Inr True
                 then (as ! i)\<lparr>state := DELETED\<rparr> else as ! i)"
    using rest by (auto split: sum.splits prod.splits if_splits)
  ultimately show ?thesis by simp
qed

lemma garbage_collect_artifacts_writes:
  assumes "garbage_collect_artifacts env artifacts w = (Inr (), w')" "artifacts \<noteq> []"
  shows "\<exists>batch w1. mark_artifacts env artifacts w = (Inr batch, w1) \<and>
           store_writes w' = store_writes w @ [batch] \<and> length batch = length artifacts"
proof -
  obtain r1 w1 where m: "mark_artifacts env artifacts w = (r1, w1)"
    by (cases "mark_artifacts env artifacts w")
  then obtain batch where b: "r1 = Inr batch"
    using assms by (cases r1) (auto simp: garbage_collect_artifacts_def)
  have "put_artifacts env batch w1 = (Inr (), w')"
    using assms m b by (simp add: garbage_collect_artifacts_def)
  then have "store_writes w' = store_writes w1 @ [batch]"
    by (auto simp: put_artifacts_def split: if_splits)
  moreover have "store_writes w1 = store_writes w"
    using mark_artifacts_frame[OF m] by simp
  ultimately show ?thesis
    using m b mark_artifacts_length[of env artifacts w batch w1] by auto
qed

lemma garbage_collect_artifacts_calls:
  assumes "garbage_collect_artifacts env artifacts w = (r, w')"
  shows "\<exists>cs. fileio_calls w' = fileio_calls w @ cs \<and>
           (\<forall>c \<in> set cs. \<exists>a \<in> set artifacts. \<not> is_artifact_external a \<and> call_uri c = uri a)"
proof (cases "artifacts = []")
  case True
  then have "w' = w" using assms by (simp add: garbage_collect_artifacts_def)
  then show ?thesis by simp
next
  case False
  obtain r1 w1 where m: "mark_artifacts env artifacts w = (r1, w1)"
    by (cases "mark_artifacts env artifacts w")
  have "fileio_calls w' = fileio_calls w1"
    using assms m False
    by (auto simp: garbage_collect_artifacts_def put_artifacts_def split: sum.splits if_splits)
  then show ?thesis using mark_artifacts_frame[OF m] by simp
qed

text \<open>
  C7: whatever the purge returns, every call of the file system layer that it makes is
  a call on the uri of an artifact of the list that is not external; an external
  artifact is processed without a change of the world, and in the batch that is written
  its state is \<open>DELETED\<close>.
\<close>

theorem external_artifacts_never_touch_storage:
  "(garbage_collect_artifacts env artifacts w = (r, w') \<longrightarrow>
      (\<exists>cs. fileio_calls w' = fileio_calls w @ cs \<and>
         (\<forall>c \<in> set cs. \<exists>a \<in> set artifacts. \<not> is_artifact_external a \<and> call_uri c = uri a)))
   \<and> (is_artifact_external a \<longrightarrow> mark_artifacts env [a] w = (Inr [a\<lparr>state := DELETED\<rparr>], w))
   \<and> (garbage_collect_artifacts env artifacts w = (Inr (), w') \<and> artifacts \<noteq> [] \<longrightarrow>
        (\<exists>batch. store_writes w' = store_writes w @ [batch] \<and> length batch = length artifacts \<and>
           (\<forall>i < length artifacts. is_artifact_external (artifacts ! i) \<longrightarrow>
              batch ! i = (artifacts ! i)\<lparr>state := DELETED\<rparr>)))"
proof (intro conjI impI)
  assume "garbage_collect_artifacts env artifacts w = (r, w')"
  then show "\<exists>cs. fileio_calls w' = fileio_calls w @ cs \<and>
         (\<forall>c \<in> set cs. \<exists>a \<in> set artifacts. \<not> is_artifact_external a \<and> call_uri c = uri a)"
    by (rule garbage_collect_artifacts_calls)
next
  assume "is_artifact_external a"
  then show "mark_artifacts env [a] w = (Inr [a\<lparr>state := DELETED\<rparr>], w)" by simp
next
  assume a: "garbage_collect_artifacts env artifacts w = (Inr (), w') \<and> artifacts \<noteq> []"
  then obtain batch w1 where m: "mark_artifacts env artifacts w = (Inr batch, w1)"
    and sw: "store_writes w' = store_writes w @ [batch]" and len: "length batch = length artifacts"
    using garbage_collect_artifacts_writes by blast
  have "\<forall>i < length artifacts. is_artifact_external (artifacts ! i) \<longrightarrow>
              batch ! i = (artifacts ! i)\<lparr>state := DELETED\<rparr>"
  proof (intro allI impI)
    fix i assume i: "i < length artifacts" and e: "is_artifact_external (artifacts ! i)"
    obtain r wi where p: "mark_artifacts env (take i artifacts) w = (r, wi)"
      by (cases "mark_artifacts env (take i artifacts) w")
    show "batch ! i = (artifacts ! i)\<lparr>state := DELETED\<rparr>"
      using mark_artifacts_nth[OF m i p] e by simp
  qed
  with sw len show "\<exists>batch. store_writes w' = store_writes w @ [batch] \<and>
      length batch = length artifacts \<and>
      (\<forall>i < length artifacts. is_artifact_external (artifacts ! i) \<longrightarrow>
              batch ! i = (artifacts ! i)\<lparr>state := DELETED\<rparr>)"
    by blast
qed

lemmas example_defs = example_env_def example_world_def
      external_artifact_def stored_artifact_def locked_artifact_def gone_artifact_def mk_artifact_def

lemmas purge_defs = garbage_collect_artifacts_def is_artifact_external_def
      get_property_value_def delete_artifact_uri_def delete_artifact_uri_handler_def
      called_def log_error_def put_artifacts_def Let_def

theorem external_artifacts_never_touch_storage_witness:
  "garbage_collect_artifacts example_env [external_artifact, stored_artifact] example_world =
     (Inr (),
      \<lparr>filesystem = [''u2'', ''locked''], fileio_calls = [Isdir ''u1'', Remove ''u1''],
       store_writes = [[external_artifact\<lparr>state := DELETED\<rparr>, stored_artifact\<lparr>state := DELETED\<rparr>]],
       log_records = []\<rparr>)
   \<and> is_artifact_external external_artifact \<and> \<not> is_artifact_external stored_artifact
   \<and> uri external_artifact = ''ext''"
  using external_artifacts_never_touch_storage
    [where env = example_env and artifacts = "[external_artifact, stored_artifact]"
       and w = example_world and a = external_artifact and r = "Inr ()"
       and w' = "\<lparr>filesystem = [''u2'', ''locked''], fileio_calls = [Isdir ''u1'', Remove ''u1''],
                 store_writes = [[external_artifact\<lparr>state := DELETED\<rparr>,
                                  stored_artifact\<lparr>state := DELETED\<rparr>]],
                 log_records = []\<rparr>"]
  by (simp add: example_defs purge_defs)

text \<open>
  C8: let the purge reach an internal artifact in the world \<open>wi\<close>, and let the removal it
  attempts there end with \<open>ok\<close> and the file system \<open>fsr\<close>. If the removal succeeds, or it
  fails and the location does not exist in \<open>fsr\<close>, the artifact may be marked \<open>DELETED\<close>
  and the batch that is written holds it with state \<open>DELETED\<close>; if the removal fails and
  the location exists in \<open>fsr\<close>, the batch holds the artifact as it was, so a \<open>LIVE\<close>
  artifact stays \<open>LIVE\<close>.
\<close>

theorem internal_artifact_state_after_purge:
  assumes rm: "attempt_removal env (uri (artifacts ! i)) (filesystem wi) = (ok, fsr)"
    and i: "i < length artifacts"
    and internal: "\<not> is_artifact_external (artifacts ! i)"
    and p: "mark_artifacts env (take i artifacts) w = (r, wi)"
  shows "(ok \<or> fileio_exists env (uri (artifacts ! i)) fsr = Inr False \<longrightarrow>
            fst (delete_artifact_uri env (artifacts ! i) wi) = Inr True)
       \<and> (\<not> ok \<and> fileio_exists env (uri (artifacts ! i)) fsr = Inr True \<longrightarrow>
            fst (delete_artifact_uri env (artifacts ! i) wi) = Inr False)
       \<and> (garbage_collect_artifacts env artifacts w = (Inr (), w') \<longrightarrow>
            (\<exists>batch. store_writes w' = store_writes w @ [batch] \<and>
               length batch = length artifacts \<and>
               (ok \<or> fileio_exists env (uri (artifacts ! i)) fsr = Inr False \<longrightarrow>
                  batch ! i = (artifacts ! i)\<lparr>state := DELETED\<rparr>) \<and>
               (\<not> ok \<and> fileio_exists env (uri (artifacts ! i)) fsr = Inr True \<longrightarrow>
                  batch ! i = artifacts ! i \<and> state (batch ! i) = state (artifacts ! i))))"
proof -
  note out = delete_artifact_uri_outcome[OF rm]
  have A: "ok \<or> fileio_exists env (uri (artifacts ! i)) fsr = Inr False \<longrightarrow>
            fst (delete_artifact_uri env (artifacts ! i) wi) = Inr True"
    using out by auto
  have B: "\<not> ok \<and> fileio_exists env (uri (artifacts ! i)) fsr = Inr True \<longrightarrow>
            fst (delete_artifact_uri env (artifacts ! i) wi) = Inr False"
    using out by auto
  have C: "garbage_collect_artifacts env artifacts w = (Inr (), w') \<longrightarrow>
            (\<exists>batch. store_writes w' = store_writes w @ [batch] \<and>
               length batch = length artifacts \<and>
               (ok \<or> fileio_exists env (uri (artifacts ! i)) fsr = Inr False \<longrightarrow>
                  batch ! i = (artifacts ! i)\<lparr>state := DELETED\<rparr>) \<and>
               (\<not> ok \<and> fileio_exists env (uri (artifacts ! i)) fsr = Inr True \<longrightarrow>
                  batch ! i = artifacts ! i \<and> state (batch ! i) = state (artifacts ! i)))"
  proof
    assume gc: "garbage_collect_artifacts env artifacts w = (Inr (), w')"
    have ne: "artifacts \<noteq> []" using i by auto
    from garbage_collect_artifacts_writes[OF gc ne]
    obtain batch w1 where m: "mark_artifacts env artifacts w = (Inr batch, w1)"
      and sw: "store_writes w' = store_writes w @ [batch]"
      and len: "length batch = length artifacts"
      by blast
    have nth: "batch ! i =
        (if fst (delete_artifact_uri env (artifacts ! i) wi) = Inr True
         then (artifacts ! i)\<lparr>state := DELETED\<rparr> else artifacts ! i)"
      using mark_artifacts_nth[OF m i p] internal by simp
    have "(ok \<or> fileio_exists env (uri (artifacts ! i)) fsr = Inr False \<longrightarrow>
                  batch ! i = (artifacts ! i)\<lparr>state := DELETED\<rparr>) \<and>
          (\<not> ok \<and> fileio_exists env (uri (artifacts ! i)) fsr = Inr True \<longrightarrow>
                  batch ! i = artifacts ! i \<and> state (batch ! i) = state (artifacts ! i))"
      using nth A B by auto
    with sw len show "\<exists>batch. store_writes w' = store_writes w @ [batch] \<and>
               length batch = length artifacts \<and>
               (ok \<or> fileio_exists env (uri (artifacts ! i)) fsr = Inr False \<longrightarrow>
                  batch ! i = (artifacts ! i)\<lparr>state := DELETED\<rparr>) \<and>
               (\<not> ok \<and> fileio_exists env (uri (artifacts ! i)) fsr = Inr True \<longrightarrow>
                  batch ! i = artifacts ! i \<and> state (batch ! i) = state (artifacts ! i))"
      by blast
  qed
  from A B C show ?thesis by blast
qed

text \<open>
  The three cases of C8 in one run: the location of the first artifact is removed, the
  location of the second does not exist, the removal of the third fails with its
  location still there. The first two are written back \<open>DELETED\<close>, the third \<open>LIVE\<close>.
\<close>

theorem internal_artifact_state_after_purge_witness:
  "garbage_collect_artifacts example_env [stored_artifact, gone_artifact, locked_artifact]
     example_world =
     (Inr (),
      \<lparr>filesystem = [''u2'', ''locked''],
       fileio_calls = [Isdir ''u1'', Remove ''u1'', Isdir ''gone'', Remove ''gone'', Exists ''gone'',
                       Isdir ''locked'', Remove ''locked'', Exists ''locked''],
       store_writes = [[stored_artifact\<lparr>state := DELETED\<rparr>, gone_artifact\<lparr>state := DELETED\<rparr>,
                        locked_artifact]],
       log_records = [Exception_uri_not_found ''gone'', Exception_failed_to_delete ''locked'']\<rparr>)
   \<and> attempt_removal example_env ''locked'' [''u2'', ''locked''] = (False, [''u2'', ''locked''])
   \<and> fileio_exists example_env ''locked'' [''u2'', ''locked''] = Inr True
   \<and> state locked_artifact = LIVE"
  using internal_artifact_state_after_purge
    [where env = example_env and artifacts = "[stored_artifact, gone_artifact, locked_artifact]"
       and i = 2 and w = example_world and ok = False
       and w' = "\<lparr>filesystem = [''u2'', ''locked''],
                 fileio_calls = [Isdir ''u1'', Remove ''u1'', Isdir ''gone'', Remove ''gone'',
                                 Exists ''gone'', Isdir ''locked'', Remove ''locked'',
                                 Exists ''locked''],
                 store_writes = [[stored_artifact\<lparr>state := DELETED\<rparr>,
                                  gone_artifact\<lparr>state := DELETED\<rparr>, locked_artifact]],
                 log_records = [Exception_uri_not_found ''gone'',
                                Exception_failed_to_delete ''locked'']\<rparr>" and fsr = "[''u2'', ''locked'']"
       and r = "Inr [stored_artifact\<lparr>state := DELETED\<rparr>, gone_artifact\<lparr>state := DELETED\<rparr>]"
       and wi = "\<lparr>filesystem = [''u2'', ''locked''],
                 fileio_calls = [Isdir ''u1'', Remove ''u1'', Isdir ''gone'', Remove ''gone'',
                                 Exists ''gone''],
                 store_writes = [], log_records = [Exception_uri_not_found ''gone'']\<rparr>"]
  by (simp add: example_defs purge_defs attempt_removal_def numeral_2_eq_2)

lemma garbage_collect_artifacts_no_write:
  assumes "garbage_collect_artifacts env artifacts w = (r, w')" "r \<noteq> Inr () \<or> artifacts = []"
  shows "store_writes w' = store_writes w"
proof (cases "artifacts = []")
  case True
  then show ?thesis using assms by (simp add: garbage_collect_artifacts_def)
next
  case False
  obtain r1 w1 where m: "mark_artifacts env artifacts w = (r1, w1)"
    by (cases "mark_artifacts env artifacts w")
  have "store_writes w' = store_writes w1"
    using assms m False
    by (cases r) (auto simp: garbage_collect_artifacts_def put_artifacts_def split: sum.splits if_splits)
  then show ?thesis using mark_artifacts_frame[OF m] by simp
qed

text \<open>
  C10: a purge that returns normally on a list that is not empty writes one batch, of
  the length of the list. Each record of the batch has the id, the uri, the creation
  timestamp, the properties and the custom properties of the artifact at its position;
  its state is the artifact's or \<open>DELETED\<close>. An internal artifact whose removal failed
  with the location still there is written back unchanged in that batch. A purge that
  fails, or runs on the empty list, writes nothing.
\<close>

theorem purge_changes_only_state:
  assumes gc: "garbage_collect_artifacts env artifacts w = (r, w')"
  shows "(r = Inr () \<and> artifacts \<noteq> [] \<longrightarrow>
           (\<exists>batch. store_writes w' = store_writes w @ [batch] \<and>
              length batch = length artifacts \<and>
              (\<forall>i < length artifacts.
                 artifact_id (batch ! i) = artifact_id (artifacts ! i) \<and>
                 uri (batch ! i) = uri (artifacts ! i) \<and>
                 create_time_since_epoch (batch ! i) = create_time_since_epoch (artifacts ! i) \<and>
                 properties (batch ! i) = properties (artifacts ! i) \<and>
                 custom_properties (batch ! i) = custom_properties (artifacts ! i) \<and>
                 (state (batch ! i) = state (artifacts ! i) \<or> state (batch ! i) = DELETED) \<and>
                 (\<forall>rp wi ok fsr.
                    \<not> is_artifact_external (artifacts ! i) \<and>
                    mark_artifacts env (take i artifacts) w = (rp, wi) \<and>
                    attempt_removal env (uri (artifacts ! i)) (filesystem wi) = (ok, fsr) \<and>
                    \<not> ok \<and> fileio_exists env (uri (artifacts ! i)) fsr = Inr True \<longrightarrow>
                    batch ! i = artifacts ! i))))
       \<and> (r \<noteq> Inr () \<or> artifacts = [] \<longrightarrow> store_writes w' = store_writes w)"
proof (intro conjI impI)
  assume a: "r = Inr () \<and> artifacts \<noteq> []"
  then have gc': "garbage_collect_artifacts env artifacts w = (Inr (), w')" using gc by simp
  from garbage_collect_artifacts_writes[OF gc'] a
  obtain batch w1 where m: "mark_artifacts env artifacts w = (Inr batch, w1)"
    and sw: "store_writes w' = store_writes w @ [batch]"
    and len: "length batch = length artifacts"
    by blast
  have all2: "list_all2 (\<lambda>a a'. a' = a \<or> a' = a\<lparr>state := DELETED\<rparr>) artifacts batch"
    using m by (rule mark_artifacts_only_state)
  have "\<forall>i < length artifacts.
                 artifact_id (batch ! i) = artifact_id (artifacts ! i) \<and>
                 uri (batch ! i) = uri (artifacts ! i) \<and>
                 create_time_since_epoch (batch ! i) = create_time_since_epoch (artifacts ! i) \<and>
                 properties (batch ! i) = properties (artifacts ! i) \<and>
                 custom_properties (batch ! i) = custom_properties (artifacts ! i) \<and>
                 (state (batch ! i) = state (artifacts ! i) \<or> state (batch ! i) = DELETED) \<and>
                 (\<forall>rp wi ok fsr.
                    \<not> is_artifact_external (artifacts ! i) \<and>
                    mark_artifacts env (take i artifacts) w = (rp, wi) \<and>
                    attempt_removal env (uri (artifacts ! i)) (filesystem wi) = (ok, fsr) \<and>
                    \<not> ok \<and> fileio_exists env (uri (artifacts ! i)) fsr = Inr True \<longrightarrow>
                    batch ! i = artifacts ! i)"
  proof (intro allI impI)
    fix i assume i: "i < length artifacts"
    have step: "batch ! i = artifacts ! i \<or> batch ! i = (artifacts ! i)\<lparr>state := DELETED\<rparr>"
      using all2 i by (auto simp: list_all2_conv_all_nth)
    have unchanged: "\<forall>rp wi ok fsr.
                    \<not> is_artifact_external (artifacts ! i) \<and>
                    mark_artifacts env (take i artifacts) w = (rp, wi) \<and>
                    attempt_removal env (uri (artifacts ! i)) (filesystem wi) = (ok, fsr) \<and>
                    \<not> ok \<and> fileio_exists env (uri (artifacts ! i)) fsr = Inr True \<longrightarrow>
                    batch ! i = artifacts ! i"
    proof (intro allI impI)
      fix rp wi ok fsr
      assume h: "\<not> is_artifact_external (artifacts ! i) \<and>
                    mark_artifacts env (take i artifacts) w = (rp, wi) \<and>
                    attempt_removal env (uri (artifacts ! i)) (filesystem wi) = (ok, fsr) \<and>
                    \<not> ok \<and> fileio_exists env (uri (artifacts ! i)) fsr = Inr True"
      then have p: "mark_artifacts env (take i artifacts) w = (rp, wi)"
        and rm: "attempt_removal env (uri (artifacts ! i)) (filesystem wi) = (ok, fsr)"
        by simp_all
      have "fst (delete_artifact_uri env (artifacts ! i) wi) = Inr False"
        using delete_artifact_uri_outcome[OF rm] h by simp
      then show "batch ! i = artifacts ! i"
        using mark_artifacts_nth[OF m i p] h by simp
    qed
    from step unchanged show "artifact_id (batch ! i) = artifact_id (artifacts ! i) \<and>
                 uri (batch ! i) = uri (artifacts ! i) \<and>
                 create_time_since_epoch (batch ! i) = create_time_since_epoch (artifacts ! i) \<and>
                 properties (batch ! i) = properties (artifacts ! i) \<and>
                 custom_properties (batch ! i) = custom_properties (artifacts ! i) \<and>
                 (state (batch ! i) = state (artifacts ! i) \<or> state (batch ! i) = DELETED) \<and>
                 (\<forall>rp wi ok fsr.
                    \<not> is_artifact_external (artifacts ! i) \<and>
                    mark_artifacts env (take i artifacts) w = (rp, wi) \<and>
                    attempt_removal env (uri (artifacts ! i)) (filesystem wi) = (ok, fsr) \<and>
                    \<not> ok \<and> fileio_exists env (uri (artifacts ! i)) fsr = Inr True \<longrightarrow>
                    batch ! i = artifacts ! i)"
      by (elim disjE) simp_all
  qed
  with sw len show "\<exists>batch. store_writes w' = store_writes w @ [batch] \<and>
              length batch = length artifacts \<and>
              (\<forall>i < length artifacts.
                 artifact_id (batch ! i) = artifact_id (artifacts ! i) \<and>
                 uri (batch ! i) = uri (artifacts ! i) \<and>
                 create_time_since_epoch (batch ! i) = create_time_since_epoch (artifacts ! i) \<and>
                 properties (batch ! i) = properties (artifacts ! i) \<and>
                 custom_properties (batch ! i) = custom_properties (artifacts ! i) \<and>
                 (state (batch ! i) = state (artifacts ! i) \<or> state (batch ! i) = DELETED) \<and>
                 (\<forall>rp wi ok fsr.
                    \<not> is_artifact_external (artifacts ! i) \<and>
                    mark_artifacts env (take i artifacts) w = (rp, wi) \<and>
                    attempt_removal env (uri (artifacts ! i)) (filesystem wi) = (ok, fsr) \<and>
                    \<not> ok \<and> fileio_exists env (uri (artifacts ! i)) fsr = Inr True \<longrightarrow>
                    batch ! i = artifacts ! i))"
    by blast
next
  assume "r \<noteq> Inr () \<or> artifacts = []"
  with gc show "store_writes w' = store_writes w"
    by (rule garbage_collect_artifacts_no_write)
qed

text \<open>
  A run with an external artifact, one whose removal fails with the location still there
  and one that is removed: one batch, the second record as it was.
\<close>

theorem purge_changes_only_state_witness:
  "garbage_collect_artifacts example_env [external_artifact, locked_artifact, stored_artifact]
     example_world =
     (Inr (),
      \<lparr>filesystem = [''u2'', ''locked''],
       fileio_calls = [Isdir ''locked'', Remove ''locked'', Exists ''locked'',
                       Isdir ''u1'', Remove ''u1''],
       store_writes = [[external_artifact\<lparr>state := DELETED\<rparr>, locked_artifact,
                        stored_artifact\<lparr>state := DELETED\<rparr>]],
       log_records = [Exception_failed_to_delete ''locked'']\<rparr>)
   \<and> store_writes example_world = []"
  using purge_changes_only_state
    [where env = example_env
       and artifacts = "[external_artifact, locked_artifact, stored_artifact]"
       and w = example_world and r = "Inr ()"
       and w' = "\<lparr>filesystem = [''u2'', ''locked''],
                 fileio_calls = [Isdir ''locked'', Remove ''locked'', Exists ''locked'',
                                 Isdir ''u1'', Remove ''u1''],
                 store_writes = [[external_artifact\<lparr>state := DELETED\<rparr>, locked_artifact,
                                  stored_artifact\<lparr>state := DELETED\<rparr>]],
                 log_records = [Exception_failed_to_delete ''locked'']\<rparr>"]
  by (simp add: example_defs purge_defs)

section \<open>Properties of the usage filter\<close>

lemma fold_execution_dict:
  "fold (\<lambda>x m. m(execution_id x \<mapsto> x))
        (concat (map (\<lambda>i. case st i of None \<Rightarrow> []
                          | Some s \<Rightarrow> [\<lparr>execution_id = i, last_known_state = s\<rparr>]) ids)) m
   = (\<lambda>i. if i \<in> set ids \<and> st i \<noteq> None
           then Some \<lparr>execution_id = i, last_known_state = the (st i)\<rparr> else m i)"
proof (induction ids arbitrary: m)
  case Nil
  then show ?case by simp
next
  case (Cons j js)
  show ?case
  proof (cases "st j")
    case None
    then show ?thesis
      unfolding list.map concat.simps by (simp only: option.case append_Nil Cons.IH) (auto simp: fun_eq_iff)
  next
    case (Some s)
    then show ?thesis
      unfolding list.map concat.simps
      by (simp only: option.case append_Cons append_Nil fold_simps Cons.IH) (auto simp: fun_eq_iff)
  qed
qed

lemma execution_id_to_execution_store:
  assumes "get_executions_by_id env ids = Inr executions"
  shows "execution_id_to_execution executions i =
           (if i \<in> set ids
            then map_option (\<lambda>s. \<lparr>execution_id = i, last_known_state = s\<rparr>) (store_executions env i)
            else None)"
proof -
  have "executions = concat (map (\<lambda>i. case store_executions env i of None \<Rightarrow> []
                          | Some s \<Rightarrow> [\<lparr>execution_id = i, last_known_state = s\<rparr>]) ids)"
    using assms by (auto simp: get_executions_by_id_def split: if_splits)
  then show ?thesis
    by (auto simp: execution_id_to_execution_def fold_execution_dict)
qed

lemma in_use_artifact_ids_result:
  assumes "in_use_artifact_ids by_id es acc = Inr S"
  shows "(\<forall>e \<in> set es. by_id (ev_execution_id e) \<noteq> None) \<and>
         S = acc \<union> {ev_artifact_id e | e. e \<in> set es \<and>
                      (\<exists>x. by_id (ev_execution_id e) = Some x \<and> is_execution_active x)}"
  using assms
proof (induction es arbitrary: acc)
  case Nil
  then show ?case by simp
next
  case (Cons e es)
  then obtain x where x: "by_id (ev_execution_id e) = Some x"
    by (cases "by_id (ev_execution_id e)") auto
  let ?acc = "if is_execution_active x then insert (ev_artifact_id e) acc else acc"
  have "in_use_artifact_ids by_id es ?acc = Inr S"
    using Cons.prems x by simp
  from Cons.IH[OF this] show ?case using x by auto
qed

lemma artifacts_not_in_use_safe:
  assumes "artifacts_not_in_use env artifacts events = Inr result"
    and "a \<in> set result" "e \<in> set events"
    and "ev_artifact_id e = artifact_id a" "is_valid_input_event e"
  shows "a \<in> set artifacts \<and> store_executions env (ev_execution_id e) = Some TERMINAL"
proof -
  let ?input = "filter (\<lambda>e. ev_artifact_id e \<in> set (map artifact_id artifacts) \<and>
                             is_valid_input_event e) events"
  let ?ids = "map ev_execution_id ?input"
  have sub: "a \<in> set artifacts"
    using assms(1,2)
    by (auto simp: artifacts_not_in_use_def Let_def split: if_splits sum.splits)
  then have e_in: "e \<in> set ?input" using assms by auto
  then have "?input \<noteq> []" by (metis empty_iff empty_set)
  then have ne: "?ids \<noteq> []" by simp
  then obtain executions in_use where
    ex: "get_executions_by_id env ?ids = Inr executions"
    and iu: "in_use_artifact_ids (execution_id_to_execution executions) ?input {} = Inr in_use"
    and res: "result = filter (\<lambda>a. artifact_id a \<notin> in_use) artifacts"
    using assms(1)
    by (auto simp: artifacts_not_in_use_def Let_def split: if_splits sum.splits)
  from in_use_artifact_ids_result[OF iu] e_in
  obtain x where x: "execution_id_to_execution executions (ev_execution_id e) = Some x"
    by auto
  have "ev_artifact_id e \<notin> in_use" using res assms(2,4) by auto
  then have na: "\<not> is_execution_active x"
    using in_use_artifact_ids_result[OF iu] e_in x by auto
  have "ev_execution_id e \<in> set ?ids" using e_in by (metis image_eqI set_map)
  then have "Some x = map_option (\<lambda>s. \<lparr>execution_id = ev_execution_id e, last_known_state = s\<rparr>)
                        (store_executions env (ev_execution_id e))"
    using execution_id_to_execution_store[OF ex, of "ev_execution_id e"] x by simp
  then obtain s where "store_executions env (ev_execution_id e) = Some s"
    and "x = \<lparr>execution_id = ev_execution_id e, last_known_state = s\<rparr>"
    by (cases "store_executions env (ev_execution_id e)") auto
  then have "store_executions env (ev_execution_id e) = Some TERMINAL"
    using na by (cases s) (auto simp: is_execution_active_def)
  with sub show ?thesis by simp
qed

lemma artifacts_to_garbage_collect_safe:
  assumes "artifacts_to_garbage_collect env artifacts events p w = (Inr result, w')"
    and "a \<in> set result" "e \<in> set events"
    and "ev_artifact_id e = artifact_id a" "is_valid_input_event e"
  shows "store_executions env (ev_execution_id e) = Some TERMINAL"
proof -
  obtain result2 where "artifacts_not_in_use env result2 events = Inr result"
    using assms(1)
    by (auto simp: artifacts_to_garbage_collect_def split: prod.splits sum.splits)
  from artifacts_not_in_use_safe[OF this assms(2-5)] show ?thesis by simp
qed

section \<open>Properties of the node level\<close>

lemma artifacts_not_most_recently_published_subset:
  "set (artifacts_not_most_recently_published artifacts n) \<subseteq> set artifacts"
  by (auto simp: artifacts_not_most_recently_published_def Let_def)

lemma artifacts_not_kept_by_property_value_groups_subset:
  "artifacts_not_kept_by_property_value_groups artifacts gs = Inr result \<Longrightarrow>
   set result \<subseteq> set artifacts"
  by (auto simp: artifacts_not_kept_by_property_value_groups_def Let_def split: sum.splits)


lemma artifacts_to_garbage_collect_for_policy_subset:
  assumes "artifacts_to_garbage_collect_for_policy artifacts p w = (Inr result, w')"
  shows "set result \<subseteq> set artifacts"
proof (cases "policy p")
  case (Keep_most_recently_published n)
  then show ?thesis
    using assms artifacts_not_most_recently_published_subset[of artifacts n]
    by (auto simp: artifacts_to_garbage_collect_for_policy_def)
next
  case (Keep_property_value_groups gs)
  then show ?thesis
    using assms artifacts_not_kept_by_property_value_groups_subset[of artifacts gs]
    by (auto simp: artifacts_to_garbage_collect_for_policy_def split: sum.splits)
next
  case Policy_not_set
  then show ?thesis
    using assms by (auto simp: artifacts_to_garbage_collect_for_policy_def)
qed

lemma artifacts_not_in_use_subset:
  "artifacts_not_in_use env artifacts events = Inr result \<Longrightarrow> set result \<subseteq> set artifacts"
  by (auto simp: artifacts_not_in_use_def Let_def split: if_splits sum.splits)


lemma artifacts_to_garbage_collect_subset:
  assumes "artifacts_to_garbage_collect env artifacts events p w = (Inr result, w')"
    and "extension_shrinks env"
  shows "set result \<subseteq> set artifacts"
proof -
  obtain r1 w1 r2 where 1: "artifacts_to_garbage_collect_for_policy artifacts p w = (Inr r1, w1)"
    and 2: "artifacts_not_in_use_in_pipeline_groups env (keep_if_used_in_pipeline_groups p) r1 = Inr r2"
    and 3: "artifacts_not_in_use env r2 events = Inr result"
    using assms(1)
    by (auto simp: artifacts_to_garbage_collect_def split: prod.splits sum.splits)
  have "set r2 \<subseteq> set r1" using 2 assms(2) by (auto simp: extension_shrinks_def)
  then show ?thesis
    using artifacts_to_garbage_collect_for_policy_subset[OF 1] artifacts_not_in_use_subset[OF 3]
    by blast
qed


lemma collect_for_output_keys_invariant:
  assumes "collect_for_output_keys env by_key events ps result w = (Inr final, w')"
    and "\<forall>a \<in> set result. P a"
    and "\<And>k p artifacts w0 for_key w1 a.
           map_of by_key k = Some artifacts \<Longrightarrow>
           artifacts_to_garbage_collect env artifacts events p w0 = (Inr for_key, w1) \<Longrightarrow>
           a \<in> set for_key \<Longrightarrow> P a"
  shows "\<forall>a \<in> set final. P a"
  using assms(1,2)
proof (induction ps arbitrary: result w)
  case Nil
  then show ?case by simp
next
  case (Cons kp ps)
  obtain k p where kp: "kp = (k, p)" by (cases kp)
  show ?case
  proof (cases "map_of by_key k")
    case None
    then show ?thesis using Cons kp by simp
  next
    case (Some artifacts)
    obtain r1 w1 where a: "artifacts_to_garbage_collect env artifacts events p w = (r1, w1)"
      by (cases "artifacts_to_garbage_collect env artifacts events p w")
    then obtain for_key where r1: "r1 = Inr for_key"
      using Cons.prems(1) kp Some by (cases r1) auto
    have c: "collect_for_output_keys env by_key events ps (result @ for_key) w1 = (Inr final, w')"
      using Cons.prems(1) kp Some a r1 by simp
    have "\<forall>a \<in> set (result @ for_key). P a"
      using Cons.prems(2) assms(3)[OF Some a[unfolded r1]] by auto
    from Cons.IH[OF c this] show ?thesis .
  qed
qed

lemma get_artifacts_to_garbage_collect_for_node_cases:
  assumes "get_artifacts_to_garbage_collect_for_node env uid n w = (Inr result, w')"
  shows "(result = [] \<and> w' = w) \<or>
         (\<exists>by_key events.
            get_live_output_artifacts_for_node env uid = Inr by_key \<and>
            get_events_by_artifact_ids env
              (remdups (map artifact_id (concat (map snd by_key)))) = Inr events \<and>
            collect_for_output_keys env by_key events
              (get_garbage_collection_policies_for_node n) [] w = (Inr result, w'))"
  using assms
  by (auto simp: get_artifacts_to_garbage_collect_for_node_def Let_def
           split: if_splits sum.splits)

text \<open>
  C1: in the candidates computed for one output key, whatever the policy, the events and
  the pipeline-group extension are, no artifact is consumed by an active execution. The
  same holds for the candidates of a node with respect to all the events of the store,
  when the extension keeps its contract.
\<close>

theorem active_inputs_never_collected:
  "(artifacts_to_garbage_collect env artifacts events p w = (Inr result, w') \<longrightarrow>
      (\<forall>a \<in> set result. \<not> consumed_by_active_execution env events a))
   \<and> (extension_shrinks env \<and>
        get_artifacts_to_garbage_collect_for_node env uid n w = (Inr node_result, w'') \<longrightarrow>
      (\<forall>a \<in> set node_result. \<not> consumed_by_active_execution env (store_events env) a))"
proof (intro conjI impI ballI)
  fix a
  assume r: "artifacts_to_garbage_collect env artifacts events p w = (Inr result, w')"
    and a: "a \<in> set result"
  show "\<not> consumed_by_active_execution env events a"
  proof
    assume "consumed_by_active_execution env events a"
    then obtain e where e: "e \<in> set events" "ev_artifact_id e = artifact_id a"
      "is_valid_input_event e" "store_executions env (ev_execution_id e) = Some ACTIVE"
      by (auto simp: consumed_by_active_execution_def)
    from artifacts_to_garbage_collect_safe[OF r a e(1,2,3)] e(4) show False by simp
  qed
next
  fix a
  assume h: "extension_shrinks env \<and>
        get_artifacts_to_garbage_collect_for_node env uid n w = (Inr node_result, w'')"
    and a: "a \<in> set node_result"
  then have shr: "extension_shrinks env"
    and g: "get_artifacts_to_garbage_collect_for_node env uid n w = (Inr node_result, w'')"
    by simp_all
  from get_artifacts_to_garbage_collect_for_node_cases[OF g] a
  obtain by_key events where
    ev: "get_events_by_artifact_ids env
              (remdups (map artifact_id (concat (map snd by_key)))) = Inr events"
    and c: "collect_for_output_keys env by_key events
              (get_garbage_collection_policies_for_node n) [] w = (Inr node_result, w'')"
    by auto
  have events: "events = filter (\<lambda>e. ev_artifact_id e \<in> artifact_id ` set (concat (map snd by_key)))
                            (store_events env)"
    using ev by (auto simp: get_events_by_artifact_ids_def split: if_splits)
  let ?P = "\<lambda>a. a \<in> set (concat (map snd by_key)) \<and> \<not> consumed_by_active_execution env events a"
  have "\<forall>a \<in> set node_result. ?P a"
  proof (rule collect_for_output_keys_invariant[OF c])
    show "\<forall>a \<in> set []. ?P a" by simp
  next
    fix k p artifacts w0 for_key w1 b
    assume m: "map_of by_key k = Some artifacts"
      and t: "artifacts_to_garbage_collect env artifacts events p w0 = (Inr for_key, w1)"
      and b: "b \<in> set for_key"
    have "b \<in> set artifacts"
      using artifacts_to_garbage_collect_subset[OF t shr] b by auto
    moreover have "(k, artifacts) \<in> set by_key" using m by (rule map_of_SomeD)
    ultimately have 1: "b \<in> set (concat (map snd by_key))" by force
    have 2: "\<not> consumed_by_active_execution env events b"
    proof
      assume "consumed_by_active_execution env events b"
      then obtain e where e: "e \<in> set events" "ev_artifact_id e = artifact_id b"
        "is_valid_input_event e" "store_executions env (ev_execution_id e) = Some ACTIVE"
        by (auto simp: consumed_by_active_execution_def)
      from artifacts_to_garbage_collect_safe[OF t b e(1,2,3)] e(4) show False by simp
    qed
    from 1 2 show "?P b" by simp
  qed
  with a have in_key: "a \<in> set (concat (map snd by_key))"
    and safe: "\<not> consumed_by_active_execution env events a" by auto
  show "\<not> consumed_by_active_execution env (store_events env) a"
  proof
    assume "consumed_by_active_execution env (store_events env) a"
    then obtain e where e: "e \<in> set (store_events env)" "ev_artifact_id e = artifact_id a"
      "is_valid_input_event e" "store_executions env (ev_execution_id e) = Some ACTIVE"
      by (auto simp: consumed_by_active_execution_def)
    have "e \<in> set events" using e(1,2) in_key unfolding events by auto
    with e safe show False by (auto simp: consumed_by_active_execution_def)
  qed
qed

lemmas store_defs = store_env_def example_env_def example_world_def example_uid_def
  example_node_def keep_none_def in_use_artifact_def done_artifact_def fresh_artifact_def
  span_artifact_def mk_artifact_def unknown_order_policy_def unset_policy_def
  unknown_order_node_def unset_policy_node_def

lemmas node_defs = get_artifacts_to_garbage_collect_for_node_def
  get_garbage_collection_policies_for_node_def get_live_output_artifacts_for_node_def
  get_live_output_artifacts_of_node_by_output_key_def get_events_by_artifact_ids_def
  get_executions_by_id_def artifacts_to_garbage_collect_def
  artifacts_to_garbage_collect_for_policy_def artifacts_not_most_recently_published_def
  artifacts_not_in_use_def execution_id_to_execution_def is_valid_input_event_def
  is_execution_active_def log_error_def Let_def

lemma example_node_candidates:
  "get_artifacts_to_garbage_collect_for_node store_env example_uid example_node example_world =
     (Inr [done_artifact, fresh_artifact], example_world)"
  by (simp add: store_defs node_defs)

lemma example_key_candidates:
  "artifacts_to_garbage_collect store_env [in_use_artifact, done_artifact, fresh_artifact]
     (store_events store_env) keep_none example_world =
     (Inr [done_artifact, fresh_artifact], example_world)"
  by (simp add: store_defs node_defs)

text \<open>
  The store of the example: the artifact read by the active execution is no candidate,
  the two others are.
\<close>

theorem active_inputs_never_collected_witness:
  "get_artifacts_to_garbage_collect_for_node store_env example_uid example_node example_world =
     (Inr [done_artifact, fresh_artifact], example_world)
   \<and> artifacts_to_garbage_collect store_env [in_use_artifact, done_artifact, fresh_artifact]
       (store_events store_env) keep_none example_world =
     (Inr [done_artifact, fresh_artifact], example_world)
   \<and> consumed_by_active_execution store_env (store_events store_env) in_use_artifact
   \<and> \<not> consumed_by_active_execution store_env (store_events store_env) done_artifact
   \<and> \<not> consumed_by_active_execution store_env (store_events store_env) fresh_artifact
   \<and> extension_shrinks store_env"
proof -
  have 1: "consumed_by_active_execution store_env (store_events store_env) in_use_artifact"
    by (simp add: consumed_by_active_execution_def is_valid_input_event_def store_defs)
  have 2: "extension_shrinks store_env"
    by (simp add: extension_shrinks_def store_defs)
  from active_inputs_never_collected
    [where env = store_env and uid = example_uid and n = example_node and w = example_world
       and node_result = "[done_artifact, fresh_artifact]" and w'' = example_world
       and artifacts = "[in_use_artifact, done_artifact, fresh_artifact]"
       and events = "store_events store_env" and p = keep_none
       and result = "[done_artifact, fresh_artifact]" and w' = example_world]
    1 2 example_node_candidates example_key_candidates
  show ?thesis by simp
qed

text \<open>
  C2: when the node ids differ the call raises; when they agree it returns normally,
  whatever fails inside, and the failure is written to the log.
\<close>

theorem node_entry_point_suppresses_failures:
  "(node_info_id n \<noteq> node_id uid \<longrightarrow>
      run_garbage_collection_for_node env uid n w = (Inl ValueError_node_uids_do_not_match, w))
   \<and> (node_info_id n = node_id uid \<longrightarrow>
        fst (run_garbage_collection_for_node env uid n w) = Inr () \<and>
        (\<forall>err w1. get_artifacts_to_garbage_collect_for_node env uid n w = (Inl err, w1) \<longrightarrow>
           run_garbage_collection_for_node env uid n w =
             (Inr (), log_error (Exception_garbage_collection_failed err) w1)) \<and>
        (\<forall>artifacts w1 err w2.
           get_artifacts_to_garbage_collect_for_node env uid n w = (Inr artifacts, w1) \<and>
           garbage_collect_artifacts env artifacts w1 = (Inl err, w2) \<longrightarrow>
           run_garbage_collection_for_node env uid n w =
             (Inr (), log_error (Exception_garbage_collection_failed err) w2)))"
  by (auto simp: run_garbage_collection_for_node_def split: prod.splits sum.splits)

text \<open>
  A store whose every call fails, a consistency error and a failing batch write are
  each swallowed and logged; a wrong node id is raised.
\<close>

theorem node_entry_point_suppresses_failures_witness:
  "run_garbage_collection_for_node (store_env\<lparr>store_fails := (\<lambda>c. True)\<rparr>) example_uid
     example_node example_world =
     (Inr (), example_world\<lparr>log_records := [Exception_garbage_collection_failed StoreError]\<rparr>)
   \<and> run_garbage_collection_for_node
       (store_env\<lparr>store_executions := (\<lambda>i. None)\<rparr>) example_uid example_node example_world =
     (Inr (), example_world\<lparr>log_records :=
        [Exception_garbage_collection_failed (RuntimeError_execution_not_found 7)]\<rparr>)
   \<and> run_garbage_collection_for_node store_env (example_uid\<lparr>node_id := ''m''\<rparr>)
       example_node example_world =
     (Inl ValueError_node_uids_do_not_match, example_world)"
proof -
  have 1: "get_artifacts_to_garbage_collect_for_node (store_env\<lparr>store_fails := (\<lambda>c. True)\<rparr>)
             example_uid example_node example_world = (Inl StoreError, example_world)"
    by (simp add: store_defs node_defs)
  have 2: "get_artifacts_to_garbage_collect_for_node
             (store_env\<lparr>store_executions := (\<lambda>i. None)\<rparr>) example_uid example_node example_world =
           (Inl (RuntimeError_execution_not_found 7), example_world)"
    by (simp add: store_defs node_defs)
  have 3: "node_info_id example_node = node_id example_uid"
    "node_info_id example_node \<noteq> node_id (example_uid\<lparr>node_id := ''m''\<rparr>)"
    by (simp_all add: store_defs)
  have 4: "log_error (Exception_garbage_collection_failed err) example_world =
           example_world\<lparr>log_records := [Exception_garbage_collection_failed err]\<rparr>" for err
    by (simp add: log_error_def example_world_def)
  from node_entry_point_suppresses_failures
         [where env = "store_env\<lparr>store_fails := (\<lambda>c. True)\<rparr>" and uid = example_uid
            and n = example_node and w = example_world]
       node_entry_point_suppresses_failures
         [where env = "store_env\<lparr>store_executions := (\<lambda>i. None)\<rparr>" and uid = example_uid
            and n = example_node and w = example_world]
       node_entry_point_suppresses_failures
         [where env = store_env and uid = "example_uid\<lparr>node_id := ''m''\<rparr>"
            and n = example_node and w = example_world]
       1 2 3 4
  show ?thesis by simp
qed

section \<open>Properties of KeepPropertyValueGroups\<close>

subsection \<open>Buckets\<close>

lemma bucket_append_to_bucket:
  "bucket (append_to_bucket v a d) k = (if k = v then bucket d k @ [a] else bucket d k)"
  by (induction d) (auto simp: bucket_def)

lemma keys_append_to_bucket:
  "map fst (append_to_bucket v a d) = (if v \<in> set (map fst d) then map fst d else map fst d @ [v])"
proof (induction d)
  case Nil
  then show ?case by simp
next
  case (Cons kx d)
  obtain k xs where kx: "kx = (k, xs)" by (cases kx)
  show ?case
  proof (cases "k = v")
    case True
    then show ?thesis by (simp add: kx)
  next
    case False
    then show ?thesis using Cons.IH by (simp add: kx)
  qed
qed

lemma group_by_property_value_buckets:
  assumes "group_by_property_value name as ty d = Inr (ty', d')"
  shows "(\<forall>k. bucket d' k = bucket d k @ filter (\<lambda>a. get_property_value a name = k) as) \<and>
         set (map fst d') = set (map fst d) \<union> (\<lambda>a. get_property_value a name) ` set as \<and>
         (distinct (map fst d) \<longrightarrow> distinct (map fst d'))"
  using assms
proof (induction as arbitrary: ty d)
  case Nil
  then show ?case by simp
next
  case (Cons a as)
  let ?v = "get_property_value a name"
  obtain ty1 where rec: "group_by_property_value name as ty1 (append_to_bucket ?v a d) = Inr (ty', d')"
    using Cons.prems by (cases ?v) (auto split: if_splits)
  note IH = Cons.IH[OF rec]
  have d1: "distinct (map fst d) \<Longrightarrow> distinct (map fst (append_to_bucket ?v a d))"
    by (simp add: keys_append_to_bucket)
  have s1: "set (map fst (append_to_bucket ?v a d)) = insert ?v (set (map fst d))"
    by (auto simp: keys_append_to_bucket)
  show ?case
  proof (intro conjI allI impI)
    fix k
    show "bucket d' k = bucket d k @ filter (\<lambda>a. get_property_value a name = k) (a # as)"
      using IH by (simp add: bucket_append_to_bucket)
  next
    show "set (map fst d') = set (map fst d) \<union> (\<lambda>a. get_property_value a name) ` set (a # as)"
      using IH s1 by auto
  next
    assume "distinct (map fst d)"
    then show "distinct (map fst d')" using IH d1 by blast
  qed
qed

lemma group_by_property_value_types:
  assumes "group_by_property_value name as ty d = Inr (ty', d')"
  shows "(ty \<noteq> None \<longrightarrow> ty' = ty) \<and>
         (\<forall>a \<in> set as. \<forall>v. get_property_value a name = Some v \<longrightarrow> ty' = Some (type_of v))"
  using assms
proof (induction as arbitrary: ty d)
  case Nil
  then show ?case by simp
next
  case (Cons a as)
  show ?case
  proof (cases "get_property_value a name")
    case None
    then have "group_by_property_value name as ty (append_to_bucket None a d) = Inr (ty', d')"
      using Cons.prems by simp
    from Cons.IH[OF this] show ?thesis using None by simp
  next
    case (Some v)
    then have ok: "ty = None \<or> ty = Some (type_of v)"
      and rec: "group_by_property_value name as (Some (type_of v)) (append_to_bucket (Some v) a d)
                = Inr (ty', d')"
      using Cons.prems by (auto split: if_splits)
    have 1: "ty' = Some (type_of v)" using Cons.IH[OF rec] by simp
    have 2: "\<forall>a \<in> set as. \<forall>v. get_property_value a name = Some v \<longrightarrow> ty' = Some (type_of v)"
      using Cons.IH[OF rec] by blast
    from 1 2 show ?thesis using Some ok by auto
  qed
qed

lemma group_by_property_value_succeeds:
  assumes "\<forall>a \<in> set as. \<forall>v. get_property_value a name = Some v \<longrightarrow> type_of v = t"
    and "ty = None \<or> ty = Some t"
  shows "\<exists>ty' d'. group_by_property_value name as ty d = Inr (ty', d') \<and> (ty' = None \<or> ty' = Some t)"
  using assms
proof (induction as arbitrary: ty d)
  case Nil
  then show ?case by simp
next
  case (Cons a as)
  show ?case
  proof (cases "get_property_value a name")
    case None
    then show ?thesis using Cons.IH[of ty "append_to_bucket None a d"] Cons.prems by simp
  next
    case (Some v)
    then have t: "type_of v = t" using Cons.prems(1) by simp
    have "\<exists>ty' d'. group_by_property_value name as (Some t) (append_to_bucket (Some v) a d)
             = Inr (ty', d') \<and> (ty' = None \<or> ty' = Some t)"
      using Cons.IH[of "Some t"] Cons.prems(1) by simp
    then show ?thesis using Some t Cons.prems(2) by auto
  qed
qed

lemma group_by_property_value_error:
  "group_by_property_value name as ty d = Inl e \<Longrightarrow> e = ValueError_heterogeneous_type"
  by (induction as arbitrary: ty d) (auto split: option.splits if_splits)

text \<open>The dictionary of one group, built from the empty one.\<close>

lemma group_dictionary:
  assumes "group_by_property_value name G ty [] = Inr (ty', d)"
  shows "distinct (map fst d)"
    and "set (map fst d) = (\<lambda>a. get_property_value a name) ` set G"
    and "bucket d k = filter (\<lambda>a. get_property_value a name = k) G"
    and "map snd d = map (bucket d) (map fst d)"
proof -
  note b = group_by_property_value_buckets[OF assms]
  show 1: "distinct (map fst d)" using b by simp
  show "set (map fst d) = (\<lambda>a. get_property_value a name) ` set G" using b by simp
  show "bucket d k = filter (\<lambda>a. get_property_value a name = k) G"
    using b by (simp add: bucket_def)
  have "\<forall>(k, xs) \<in> set d. bucket d k = xs"
    using 1 by (auto simp: bucket_def)
  then show "map snd d = map (bucket d) (map fst d)"
    by (induction d) auto
qed

lemma non_null_keys_set:
  "set (non_null_keys d) = {v. Some v \<in> set (map fst d)}"
  by (induction d) (auto simp: non_null_keys_def split: option.splits)

lemma non_null_keys_distinct:
  "distinct (map fst d) \<Longrightarrow> distinct (non_null_keys d)"
proof (induction d)
  case Nil
  then show ?case by (simp add: non_null_keys_def)
next
  case (Cons kx d)
  obtain k x where kx: "kx = (k, x)" by (cases kx)
  have "non_null_keys (kx # d) = (case k of None \<Rightarrow> [] | Some v \<Rightarrow> [v]) @ non_null_keys d"
    by (simp add: non_null_keys_def kx)
  then show ?case
    using Cons kx non_null_keys_set[of d] by (cases k) auto
qed

subsection \<open>The largest and the smallest values of a sorted list\<close>

lemma sorted_distinct_above:
  fixes xs :: "'a::linorder list"
  assumes "sorted xs" "distinct xs" "i < length xs"
  shows "{u \<in> set xs. xs ! i < u} = set (drop (Suc i) xs)"
    and "{u \<in> set xs. u < xs ! i} = set (take i xs)"
proof -
  have lt: "\<And>a b. a < length xs \<Longrightarrow> b < length xs \<Longrightarrow> (xs ! a < xs ! b) = (a < b)"
  proof -
    fix a b assume a: "a < length xs" and b: "b < length xs"
    show "(xs ! a < xs ! b) = (a < b)"
    proof
      assume "xs ! a < xs ! b"
      then show "a < b"
        using assms(1) a b by (metis leD not_le_imp_less sorted_nth_mono)
    next
      assume "a < b"
      then have "xs ! a \<le> xs ! b" using assms(1) b by (simp add: sorted_nth_mono)
      moreover have "xs ! a \<noteq> xs ! b"
        using assms(2) a b \<open>a < b\<close> by (simp add: nth_eq_iff_index_eq)
      ultimately show "xs ! a < xs ! b" by simp
    qed
  qed
  show "{u \<in> set xs. xs ! i < u} = set (drop (Suc i) xs)"
  proof (intro set_eqI iffI)
    fix u assume "u \<in> {u \<in> set xs. xs ! i < u}"
    then obtain j where j: "j < length xs" "u = xs ! j" "xs ! i < xs ! j"
      by (auto simp: in_set_conv_nth)
    then have "i < j" using lt assms(3) by simp
    then show "u \<in> set (drop (Suc i) xs)"
      using j by (auto simp: set_conv_nth intro!: exI[of _ "j - Suc i"])
  next
    fix u assume "u \<in> set (drop (Suc i) xs)"
    then obtain j where "j < length xs - Suc i" "u = xs ! (Suc i + j)"
      by (auto simp: in_set_conv_nth)
    then show "u \<in> {u \<in> set xs. xs ! i < u}"
      using lt[of i "Suc i + j"] assms(3) by auto
  qed
  show "{u \<in> set xs. u < xs ! i} = set (take i xs)"
  proof (intro set_eqI iffI)
    fix u assume "u \<in> {u \<in> set xs. u < xs ! i}"
    then obtain j where j: "j < length xs" "u = xs ! j" "xs ! j < xs ! i"
      by (auto simp: in_set_conv_nth)
    then have "j < i" using lt assms(3) by simp
    then show "u \<in> set (take i xs)"
      using j by (auto simp: set_conv_nth intro!: exI[of _ j])
  next
    fix u assume "u \<in> set (take i xs)"
    then obtain j where "j < i" "j < length xs" "u = xs ! j"
      by (auto simp: in_set_conv_nth)
    then show "u \<in> {u \<in> set xs. u < xs ! i}"
      using lt[of j i] assms(3) by auto
  qed
qed

lemma sorted_distinct_count:
  fixes xs :: "'a::linorder list"
  assumes "sorted xs" "distinct xs" "i < length xs"
  shows "card {u \<in> set xs. xs ! i < u} = length xs - Suc i"
    and "card {u \<in> set xs. u < xs ! i} = i"
proof -
  show "card {u \<in> set xs. xs ! i < u} = length xs - Suc i"
    using sorted_distinct_above(1)[OF assms] assms(2)
    by (simp add: distinct_card)
  show "card {u \<in> set xs. u < xs ! i} = i"
    using sorted_distinct_above(2)[OF assms] assms(2,3)
    by (simp add: distinct_card)
qed

lemma largest_values:
  fixes xs :: "'a::linorder list"
  assumes "sorted xs" "distinct xs"
  shows "set (drop (length xs - k) xs) = {v \<in> set xs. card {u \<in> set xs. v < u} < k}"
proof (intro set_eqI iffI)
  fix v assume "v \<in> set (drop (length xs - k) xs)"
  then obtain j where j: "j < length xs - (length xs - k)" "v = xs ! (length xs - k + j)"
    by (auto simp: in_set_conv_nth)
  then have i: "length xs - k + j < length xs" by simp
  have "card {u \<in> set xs. v < u} = length xs - Suc (length xs - k + j)"
    using sorted_distinct_count(1)[OF assms i] j by simp
  then show "v \<in> {v \<in> set xs. card {u \<in> set xs. v < u} < k}"
    using i j by auto
next
  fix v assume "v \<in> {v \<in> set xs. card {u \<in> set xs. v < u} < k}"
  then obtain i where i: "i < length xs" "v = xs ! i" and c: "card {u \<in> set xs. v < u} < k"
    by (auto simp: in_set_conv_nth)
  have "length xs - Suc i < k"
    using sorted_distinct_count(1)[OF assms i(1)] c i(2) by simp
  then have "length xs - k \<le> i" using i(1) by simp
  then show "v \<in> set (drop (length xs - k) xs)"
    using i by (auto simp: set_conv_nth intro!: exI[of _ "i - (length xs - k)"])
qed

lemma smallest_values:
  fixes xs :: "'a::linorder list"
  assumes "sorted xs" "distinct xs"
  shows "set (take k xs) = {v \<in> set xs. card {u \<in> set xs. u < v} < k}"
proof (intro set_eqI iffI)
  fix v assume "v \<in> set (take k xs)"
  then obtain j where j: "j < k" "j < length xs" "v = xs ! j"
    by (auto simp: in_set_conv_nth)
  then show "v \<in> {v \<in> set xs. card {u \<in> set xs. u < v} < k}"
    using sorted_distinct_count(2)[OF assms j(2)] by auto
next
  fix v assume "v \<in> {v \<in> set xs. card {u \<in> set xs. u < v} < k}"
  then obtain i where i: "i < length xs" "v = xs ! i" and c: "card {u \<in> set xs. u < v} < k"
    by (auto simp: in_set_conv_nth)
  have "i < k" using sorted_distinct_count(2)[OF assms i(1)] c i(2) by simp
  then show "v \<in> set (take k xs)"
    using i by (auto simp: set_conv_nth intro!: exI[of _ i])
qed

subsection \<open>The groups that one group keeps\<close>

lemma sorted_keys:
  assumes "group_by_property_value name G ty [] = Inr (ty', d)"
  shows "sorted (sort (non_null_keys d))"
    and "distinct (sort (non_null_keys d))"
    and "set (sort (non_null_keys d)) = property_values name G"
    and "length (sort (non_null_keys d)) = card (property_values name G)"
proof -
  note gd = group_dictionary[OF assms]
  show "sorted (sort (non_null_keys d))" by simp
  show dist: "distinct (sort (non_null_keys d))"
    using non_null_keys_distinct[OF gd(1)] by simp
  show set: "set (sort (non_null_keys d)) = property_values name G"
  proof -
    have "set (sort (non_null_keys d)) = {v. Some v \<in> set (map fst d)}"
      by (simp add: non_null_keys_set)
    also have "\<dots> = {v. Some v \<in> (\<lambda>a. get_property_value a name) ` set G}"
      using gd(2) by simp
    also have "\<dots> = property_values name G"
      unfolding property_values_def by force
    finally show ?thesis .
  qed
  show "length (sort (non_null_keys d)) = card (property_values name G)"
    using dist set by (metis distinct_card)
qed

lemma property_values_to_keep_result:
  assumes "sorted xs" "distinct xs" "set xs = V" "0 < keep_num g" "\<not> unknown_keep_order g"
  shows "\<exists>keep. property_values_to_keep g xs = Inr keep \<and> set keep = selected_values g V \<and>
           (int (length keep) < keep_num g) = (card V < nat (keep_num g))"
proof (cases "keep_order g = KEEP_ORDER_SMALLEST")
  case True
  have "set (take (nat (keep_num g)) xs) = selected_values g V"
    using smallest_values[OF assms(1,2), of "nat (keep_num g)"] assms(3) True
    by (simp add: selected_values_def)
  moreover have "(int (length (take (nat (keep_num g)) xs)) < keep_num g) = (card V < nat (keep_num g))"
    using assms(2,3,4) distinct_card[of xs] by auto
  ultimately show ?thesis using True by (simp add: property_values_to_keep_def)
next
  case False
  then have ord: "keep_order g = KEEP_ORDER_UNSPECIFIED \<or> keep_order g = KEEP_ORDER_LARGEST"
    using assms(4,5) by (auto simp: unknown_keep_order_def)
  have "set (drop (length xs - nat (keep_num g)) xs) = selected_values g V"
    using largest_values[OF assms(1,2), of "nat (keep_num g)"] assms(3) False
    by (simp add: selected_values_def)
  moreover have "(int (length (drop (length xs - nat (keep_num g)) xs)) < keep_num g)
                 = (card V < nat (keep_num g))"
    using assms(2,3,4) distinct_card[of xs] by auto
  ultimately show ?thesis using ord by (auto simp: property_values_to_keep_def)
qed

lemma groups_to_keep_unknown_order:
  "unknown_keep_order g \<Longrightarrow> groups_to_keep g d = Inl ValueError_unknown_keep_order"
  by (auto simp: unknown_keep_order_def groups_to_keep_def property_values_to_keep_def)

lemma groups_to_keep_error:
  "groups_to_keep g d = Inl e \<Longrightarrow> e = ValueError_unknown_keep_order \<and> unknown_keep_order g"
  by (auto simp: unknown_keep_order_def groups_to_keep_def property_values_to_keep_def
           split: if_splits sum.splits)

lemma groups_to_keep_result:
  assumes d: "group_by_property_value (property_name g) G ty [] = Inr (ty', d)"
    and known: "\<not> unknown_keep_order g"
  shows "\<exists>ks. groups_to_keep g d = Inr ks \<and> set ks = kept_groups g G"
proof -
  let ?pv = "\<lambda>a. get_property_value a (property_name g)"
  note gd = group_dictionary[OF d]
  have bucket: "\<And>k. bucket d k = filter (\<lambda>a. ?pv a = k) G" using gd(3) by simp
  show ?thesis
  proof (cases "keep_num g \<le> 0")
    case True
    have "set (map snd d) = bucket d ` set (map fst d)"
      using gd(4) by (metis list.set_map)
    also have "\<dots> = (\<lambda>k. filter (\<lambda>a. ?pv a = k) G) ` (?pv ` set G)"
      using gd(2) bucket by auto
    finally show ?thesis using True by (simp add: groups_to_keep_def kept_groups_def kept_keys_def)
  next
    case False
    then have pos: "0 < keep_num g" by simp
    let ?V = "property_values (property_name g) G"
    note sk = sorted_keys[OF d]
    from property_values_to_keep_result[OF sk(1) sk(2) sk(3) pos known]
    obtain keep where keep: "property_values_to_keep g (sort (non_null_keys d)) = Inr keep"
      and sel: "set keep = selected_values g ?V"
      and len: "(int (length keep) < keep_num g) = (card ?V < nat (keep_num g))"
      by blast
    let ?null = "None \<in> set (map fst d) \<and> int (length keep) < keep_num g"
    let ?ks = "map (\<lambda>v. bucket d (Some v)) keep @ (if ?null then [bucket d None] else [])"
    have res: "groups_to_keep g d = Inr ?ks"
      using False keep by (simp add: groups_to_keep_def)
    have null: "?null = (None \<in> ?pv ` set G \<and> card ?V < nat (keep_num g))"
      using gd(2) len by simp
    have "set ?ks = (\<lambda>key. filter (\<lambda>a. ?pv a = key) G) `
                      (Some ` selected_values g ?V \<union> (if ?null then {None} else {}))"
      using sel bucket by (auto simp: image_iff)
    also have "\<dots> = kept_groups g G"
      using False null by (simp add: kept_groups_def kept_keys_def)
    finally show ?thesis using res by blast
  qed
qed

subsection \<open>One grouping over all groups\<close>

lemma next_artifact_groups_result:
  assumes "next_artifact_groups g Gs ty acc = Inr R"
  shows "set R = set acc \<union> step_groups g (set Gs) \<and> (unknown_keep_order g \<longrightarrow> Gs = []) \<and>
         (\<exists>t. (ty = None \<or> ty = Some t) \<and>
              (\<forall>G \<in> set Gs. \<forall>a \<in> set G. \<forall>v.
                 get_property_value a (property_name g) = Some v \<longrightarrow> type_of v = t))"
  using assms
proof (induction Gs arbitrary: ty acc)
  case Nil
  then show ?case by (auto simp: step_groups_def)
next
  case (Cons G Gs)
  let ?pv = "\<lambda>a. get_property_value a (property_name g)"
  obtain ty1 d where gb: "group_by_property_value (property_name g) G ty [] = Inr (ty1, d)"
    using Cons.prems by (auto split: sum.splits)
  obtain ks where ks: "groups_to_keep g d = Inr ks"
    using Cons.prems gb by (auto split: sum.splits)
  have rec: "next_artifact_groups g Gs ty1 (acc @ ks) = Inr R"
    using Cons.prems gb ks by simp
  have known: "\<not> unknown_keep_order g"
    using ks groups_to_keep_unknown_order[of g d] by auto
  from groups_to_keep_result[OF gb known] ks have kset: "set ks = kept_groups g G" by auto
  note IH = Cons.IH[OF rec]
  have 1: "set R = set acc \<union> step_groups g (set (G # Gs))"
    using IH kset by (auto simp: step_groups_def)
  have tyG: "\<forall>a \<in> set G. \<forall>v. ?pv a = Some v \<longrightarrow> ty1 = Some (type_of v)"
    using group_by_property_value_types[OF gb] by blast
  have ty_keep: "ty \<noteq> None \<longrightarrow> ty1 = ty"
    using group_by_property_value_types[OF gb] by blast
  from IH obtain t where t1: "ty1 = None \<or> ty1 = Some t"
    and tGs: "\<forall>H \<in> set Gs. \<forall>a \<in> set H. \<forall>v. ?pv a = Some v \<longrightarrow> type_of v = t"
    by blast
  have tG: "\<forall>a \<in> set G. \<forall>v. ?pv a = Some v \<longrightarrow> type_of v = t"
    using tyG t1 by auto
  have tty: "ty = None \<or> ty = Some t"
    using ty_keep t1 by auto
  have 3: "\<exists>t. (ty = None \<or> ty = Some t) \<and>
              (\<forall>H \<in> set (G # Gs). \<forall>a \<in> set H. \<forall>v. ?pv a = Some v \<longrightarrow> type_of v = t)"
    using tG tGs tty by auto
  from 1 known 3 show ?case by blast
qed

lemma next_artifact_groups_succeeds:
  assumes "\<not> unknown_keep_order g \<or> Gs = []"
    and "\<forall>G \<in> set Gs. \<forall>a \<in> set G. \<forall>v.
           get_property_value a (property_name g) = Some v \<longrightarrow> type_of v = t"
    and "ty = None \<or> ty = Some t"
  shows "\<exists>R. next_artifact_groups g Gs ty acc = Inr R"
  using assms
proof (induction Gs arbitrary: ty acc)
  case Nil
  then show ?case by simp
next
  case (Cons G Gs)
  have known: "\<not> unknown_keep_order g" using Cons.prems(1) by simp
  have "\<forall>a \<in> set G. \<forall>v. get_property_value a (property_name g) = Some v \<longrightarrow> type_of v = t"
    using Cons.prems(2) by simp
  from group_by_property_value_succeeds[OF this Cons.prems(3), of "[]"]
  obtain ty1 d where gb: "group_by_property_value (property_name g) G ty [] = Inr (ty1, d)"
    and ty1: "ty1 = None \<or> ty1 = Some t"
    by blast
  from groups_to_keep_result[OF gb known]
  obtain ks where ks: "groups_to_keep g d = Inr ks" by blast
  have "\<exists>R. next_artifact_groups g Gs ty1 (acc @ ks) = Inr R"
    using Cons.IH[of ty1 "acc @ ks"] known Cons.prems(2) ty1 by simp
  then show ?case using gb ks by simp
qed

lemma level_ok_type:
  assumes "level_ok g GS"
  shows "\<exists>t. \<forall>G \<in> GS. \<forall>a \<in> set G. \<forall>v.
           get_property_value a (property_name g) = Some v \<longrightarrow> type_of v = t"
proof (cases "\<exists>G \<in> GS. \<exists>a \<in> set G. \<exists>v. get_property_value a (property_name g) = Some v")
  case True
  then obtain G a v where "G \<in> GS" "a \<in> set G" "get_property_value a (property_name g) = Some v"
    by blast
  then have "\<forall>H \<in> GS. \<forall>b \<in> set H. \<forall>u.
           get_property_value b (property_name g) = Some u \<longrightarrow> type_of u = type_of v"
    using assms unfolding level_ok_def by blast
  then show ?thesis by blast
next
  case False
  then show ?thesis by blast
qed

lemma next_artifact_groups_iff:
  "(\<exists>R. next_artifact_groups g Gs None [] = Inr R) = level_ok g (set Gs)"
proof
  assume "\<exists>R. next_artifact_groups g Gs None [] = Inr R"
  then obtain R where "next_artifact_groups g Gs None [] = Inr R" by blast
  from next_artifact_groups_result[OF this] show "level_ok g (set Gs)"
    unfolding level_ok_def by (metis empty_set)
next
  assume ok: "level_ok g (set Gs)"
  from level_ok_type[OF ok] obtain t where
    t: "\<forall>G \<in> set Gs. \<forall>a \<in> set G. \<forall>v.
           get_property_value a (property_name g) = Some v \<longrightarrow> type_of v = t"
    by blast
  have "\<not> unknown_keep_order g \<or> Gs = []"
    using ok by (auto simp: level_ok_def)
  from next_artifact_groups_succeeds[OF this t, of None "[]"]
  show "\<exists>R. next_artifact_groups g Gs None [] = Inr R" by simp
qed

subsection \<open>All groupings\<close>

lemma artifact_groups_result:
  assumes "artifact_groups gs Gs = Inr F"
  shows "groupings_ok gs (set Gs) \<and> set F = final_groups gs (set Gs)"
  using assms
proof (induction gs arbitrary: Gs)
  case Nil
  then show ?case by simp
next
  case (Cons g gs)
  obtain R where R: "next_artifact_groups g Gs None [] = Inr R"
    using Cons.prems by (auto split: sum.splits)
  then have rec: "artifact_groups gs R = Inr F" using Cons.prems by simp
  have ok: "level_ok g (set Gs)" using R next_artifact_groups_iff by blast
  have "set R = step_groups g (set Gs)"
    using next_artifact_groups_result[OF R] by simp
  then show ?case using Cons.IH[OF rec] ok by simp
qed

lemma artifact_groups_succeeds:
  assumes "groupings_ok gs (set Gs)"
  shows "\<exists>F. artifact_groups gs Gs = Inr F"
  using assms
proof (induction gs arbitrary: Gs)
  case Nil
  then show ?case by simp
next
  case (Cons g gs)
  then have "level_ok g (set Gs)" by simp
  then obtain R where R: "next_artifact_groups g Gs None [] = Inr R"
    using next_artifact_groups_iff by blast
  have "set R = step_groups g (set Gs)"
    using next_artifact_groups_result[OF R] by simp
  then have "groupings_ok gs (set R)" using Cons.prems by simp
  from Cons.IH[OF this] show ?case using R by simp
qed

subsection \<open>The delete-set\<close>






lemma artifacts_not_kept_by_property_value_groups_ok:
  assumes "groupings_ok gs {A}"
  shows "artifacts_not_kept_by_property_value_groups A gs =
           Inr (filter (\<lambda>a. artifact_id a \<notin> artifact_id ` (\<Union>F \<in> final_groups gs {A}. set F)) A)"
proof -
  from artifact_groups_succeeds[of gs "[A]"] assms
  obtain F where F: "artifact_groups gs [A] = Inr F" by auto
  have "set F = final_groups gs {A}" using artifact_groups_result[OF F] by simp
  then have "set (map artifact_id (concat F)) = artifact_id ` (\<Union>F \<in> final_groups gs {A}. set F)"
    by auto
  then show ?thesis
    using F by (simp add: artifacts_not_kept_by_property_value_groups_def Let_def)
qed


lemma distinct_ids_filter:
  assumes "distinct (map artifact_id A)" "S \<subseteq> set A"
  shows "filter (\<lambda>a. artifact_id a \<notin> artifact_id ` S) A = filter (\<lambda>a. a \<notin> S) A"
proof (rule filter_cong[OF refl])
  fix a assume a: "a \<in> set A"
  have inj: "inj_on artifact_id (set A)" using assms(1) by (simp add: distinct_map)
  show "(artifact_id a \<notin> artifact_id ` S) = (a \<notin> S)"
    using inj a assms(2) by (auto simp: inj_on_def)
qed

lemma heterogeneous_first_grouping:
  assumes "\<not> homogeneous (property_name g) A"
  shows "artifacts_not_kept_by_property_value_groups A (g # gs) = Inl ValueError_heterogeneous_type"
proof -
  have "\<exists>e. group_by_property_value (property_name g) A None [] = Inl e"
  proof (cases "group_by_property_value (property_name g) A None []")
    case (Inl e)
    then show ?thesis by blast
  next
    case (Inr r)
    obtain ty' d where "r = (ty', d)" by (cases r)
    from group_by_property_value_types[OF Inr[unfolded this]]
    have "homogeneous (property_name g) A"
      unfolding homogeneous_def by (metis option.inject)
    with assms show ?thesis by simp
  qed
  then have "group_by_property_value (property_name g) A None [] = Inl ValueError_heterogeneous_type"
    using group_by_property_value_error by blast
  then show ?thesis
    by (simp add: artifacts_not_kept_by_property_value_groups_def)
qed

lemma single_grouping_ok:
  "groupings_ok [g] {A} = (\<not> unknown_keep_order g \<and> homogeneous (property_name g) A)"
proof -
  have "level_ok g {A} = (\<not> unknown_keep_order g \<and> homogeneous (property_name g) A)"
    unfolding level_ok_def homogeneous_def by blast
  then show ?thesis by simp
qed

text \<open>
  C5: one grouping with \<open>keep_order = LARGEST\<close> and \<open>keep_num = k > 0\<close>, over artifacts with
  distinct ids. When the non-null values of the property share a type, the delete-set is
  exactly the artifacts whose value has \<open>k\<close> or more distinct non-null values above it,
  and the artifacts without a value when there are \<open>k\<close> or more distinct non-null values;
  when they do not, the evaluation fails.
\<close>

theorem keep_largest_property_values:
  fixes g :: grouping and A :: "artifact list"
  defines "V \<equiv> property_values (property_name g) A"
  assumes "keep_order g = KEEP_ORDER_LARGEST" "0 < keep_num g" "distinct (map artifact_id A)"
  shows "artifacts_not_kept_by_property_value_groups A [g] =
           (if homogeneous (property_name g) A
            then Inr (filter (\<lambda>a. case get_property_value a (property_name g) of
                                    Some v \<Rightarrow> \<not> card {u \<in> V. v < u} < nat (keep_num g)
                                  | None \<Rightarrow> \<not> card V < nat (keep_num g)) A)
            else Inl ValueError_heterogeneous_type)"
proof (cases "homogeneous (property_name g) A")
  case False
  then show ?thesis using heterogeneous_first_grouping[of g A "[]"] by simp
next
  case True
  let ?pv = "\<lambda>a. get_property_value a (property_name g)"
  have known: "\<not> unknown_keep_order g" using assms(2) by (simp add: unknown_keep_order_def)
  then have ok: "groupings_ok [g] {A}" using True single_grouping_ok by blast
  let ?S = "\<Union>F \<in> final_groups [g] {A}. set F"
  have S: "?S = {a \<in> set A. ?pv a \<in> kept_keys g A}"
    by (auto simp: step_groups_def kept_groups_def)
  then have "?S \<subseteq> set A" by auto
  from distinct_ids_filter[OF assms(4) this]
  have "artifacts_not_kept_by_property_value_groups A [g] = Inr (filter (\<lambda>a. a \<notin> ?S) A)"
    using artifacts_not_kept_by_property_value_groups_ok[OF ok] by simp
  also have "filter (\<lambda>a. a \<notin> ?S) A = filter (\<lambda>a. ?pv a \<notin> kept_keys g A) A"
    unfolding S by (rule filter_cong) auto
  also have "\<dots> = filter (\<lambda>a. case ?pv a of
                                    Some v \<Rightarrow> \<not> card {u \<in> V. v < u} < nat (keep_num g)
                                  | None \<Rightarrow> \<not> card V < nat (keep_num g)) A"
  proof (rule filter_cong[OF refl])
    fix a assume a: "a \<in> set A"
    show "(?pv a \<notin> kept_keys g A) =
          (case ?pv a of Some v \<Rightarrow> \<not> card {u \<in> V. v < u} < nat (keep_num g)
                       | None \<Rightarrow> \<not> card V < nat (keep_num g))"
    proof (cases "?pv a")
      case None
      then have "None \<in> ?pv ` set A" using a by (metis image_eqI)
      then show ?thesis
        using None assms(2,3) by (auto simp: kept_keys_def V_def)
    next
      case (Some v)
      then have "v \<in> V" using a by (auto simp: V_def property_values_def)
      then show ?thesis
        using Some assms(2,3) by (auto simp: kept_keys_def selected_values_def V_def)
    qed
  qed
  finally show ?thesis using True by simp
qed

lemmas span_defs = span1a_def span1b_def span2_def span3_def no_span_def text_span_def
  keep_largest_span_def mk_artifact_def

lemmas groups_defs = artifacts_not_kept_by_property_value_groups_def groups_to_keep_def
  property_values_to_keep_def non_null_keys_def bucket_def get_property_value_def Let_def

lemma example_spans:
  "artifacts_not_kept_by_property_value_groups [span1a, span1b, span2, span3]
     [keep_largest_span 1] = Inr [span1a, span1b, span2]"
  by (simp add: span_defs groups_defs)

lemma example_null_kept:
  "artifacts_not_kept_by_property_value_groups [span1a, no_span, span2]
     [keep_largest_span 3] = Inr []"
  by (simp add: span_defs groups_defs)

lemma example_null_deleted:
  "artifacts_not_kept_by_property_value_groups [span1a, no_span, span2]
     [keep_largest_span 2] = Inr [no_span]"
  by (simp add: span_defs groups_defs)


lemma example_spans_homogeneous:
  "homogeneous ''span'' [span1a, span1b, span2, span3]"
  by (simp add: homogeneous_def span_defs get_property_value_def)

text \<open>
  The example of C5: spans \<open>1, 1, 2, 3\<close> and \<open>keep_num = 1\<close>. The artifacts of span 1, 1
  and 2 are deleted, the artifact of span 3 is kept. With an artifact that has no span,
  the null bucket is kept when \<open>keep_num\<close> is above the number of distinct spans and
  deleted otherwise.
\<close>

theorem keep_largest_property_values_witness:
  "artifacts_not_kept_by_property_value_groups [span1a, span1b, span2, span3]
     [keep_largest_span 1] = Inr [span1a, span1b, span2]
   \<and> filter (\<lambda>a. case get_property_value a ''span'' of
                   Some v \<Rightarrow> \<not> card {u \<in> property_values ''span'' [span1a, span1b, span2, span3].
                                      v < u} < 1
                 | None \<Rightarrow> \<not> card (property_values ''span'' [span1a, span1b, span2, span3]) < 1)
        [span1a, span1b, span2, span3] = [span1a, span1b, span2]
   \<and> artifacts_not_kept_by_property_value_groups [span1a, no_span, span2]
       [keep_largest_span 3] = Inr []
   \<and> artifacts_not_kept_by_property_value_groups [span1a, no_span, span2]
       [keep_largest_span 2] = Inr [no_span]"
proof -
  have g: "keep_order (keep_largest_span 1) = KEEP_ORDER_LARGEST" "0 < keep_num (keep_largest_span 1)"
    "property_name (keep_largest_span 1) = ''span''" "nat (keep_num (keep_largest_span 1)) = 1"
    by (simp_all add: keep_largest_span_def)
  have d: "distinct (map artifact_id [span1a, span1b, span2, span3])"
    by (simp add: span_defs)
  from keep_largest_property_values[OF g(1,2) d] example_spans example_spans_homogeneous
  have "filter (\<lambda>a. case get_property_value a ''span'' of
                   Some v \<Rightarrow> \<not> card {u \<in> property_values ''span'' [span1a, span1b, span2, span3].
                                      v < u} < 1
                 | None \<Rightarrow> \<not> card (property_values ''span'' [span1a, span1b, span2, span3]) < 1)
        [span1a, span1b, span2, span3] = [span1a, span1b, span2]"
    unfolding g(3,4) by simp
  then show ?thesis
    using example_spans example_null_kept example_null_deleted by simp
qed

section \<open>Invalid policy configurations\<close>
















section \<open>Idempotence\<close>




subsection \<open>A second pass of KeepPropertyValueGroups\<close>



















lemma example_second_pass:
  "artifacts_not_kept_by_property_value_groups [span3] [keep_largest_span 1] = Inr []"
  by (simp add: span_defs groups_defs)



end
